theory Spec2Isabelle
  imports Main "HOL-Library.Sublist"
begin

section \<open>Rules, tags and the stored collections\<close>

text \<open>
  A rule object as the extension stores it. Optional JavaScript properties are
  \<open>option\<close> values: \<open>None\<close> is \<open>undefined\<close>. The property \<open>id\<close> is called
  \<open>rule_id\<close> here, \<open>enabled\<close> is \<open>rule_enabled\<close>. Strings are lists of code
  units below 256.
\<close>

record rule =
  rule_id :: string
  rule_enabled :: "bool option"
  tags :: "string list option"
  hostname :: "string option"
  selector :: "string option"
  contentPattern :: "string option"
  action :: string
  replacement :: "string option"

text \<open>
  A tag of the registry. Every writer of the registry (\<open>createTag\<close>, \<open>toggleTag\<close>,
  \<open>migrateStorage\<close> in background.js) stores a boolean \<open>enabled\<close>.
\<close>

record tag =
  tag_id :: string
  tag_enabled :: bool

text \<open>The keys read by \<open>chrome.storage.local.get\<close>; an absent key is \<open>None\<close>.\<close>

record storage =
  communityRules :: "rule list option"
  userRules :: "rule list option"
  disabledRuleIds :: "string list option"
  stored_tags :: "tag list option"
  stored_enabled :: "bool option"

text \<open>\<open>x || []\<close> on a stored array.\<close>

definition or_empty :: "'a list option \<Rightarrow> 'a list" where
  "or_empty x = (case x of None \<Rightarrow> [] | Some xs \<Rightarrow> xs)"

text \<open>Truthiness of an optional string: \<open>undefined\<close> and \<open>''\<close> are falsy.\<close>

definition truthy :: "string option \<Rightarrow> bool" where
  "truthy x = (case x of None \<Rightarrow> False | Some s \<Rightarrow> s \<noteq> [])"

subsection \<open>background.js: getMergedRules\<close>

text \<open>\<open>tags.filter(t => !t.enabled).map(t => t.id)\<close>; the \<open>Set\<close> is only asked for membership.\<close>

definition bg_disabledTagIds :: "tag list \<Rightarrow> string list" where
  "bg_disabledTagIds ts = map tag_id (filter (\<lambda>t. \<not> tag_enabled t) ts)"

definition bg_isRuleEnabled :: "string list \<Rightarrow> string list \<Rightarrow> rule \<Rightarrow> bool" where
  "bg_isRuleEnabled disabled disabledTagIds r =
     (if rule_id r \<in> set disabled then False
      else if rule_enabled r = Some False then False
      else (case tags r of
              None \<Rightarrow> True
            | Some ts \<Rightarrow>
                if 0 < length ts then
                  (if list_ex (\<lambda>tagId. tagId \<in> set disabledTagIds) ts then False else True)
                else True))"

definition getMergedRules :: "storage \<Rightarrow> rule list" where
  "getMergedRules stored =
     (let disabled = or_empty (disabledRuleIds stored);
          tgs = or_empty (stored_tags stored);
          disabledTagIds = bg_disabledTagIds tgs;
          userRs = filter (bg_isRuleEnabled disabled disabledTagIds) (or_empty (userRules stored));
          communityRs = filter (bg_isRuleEnabled disabled disabledTagIds) (or_empty (communityRules stored))
      in userRs @ communityRs)"

section \<open>The document\<close>

text \<open>
  The DOM as far as the replacer and the selector generator read and write it.
  An element carries its tag name, its \<open>id\<close>, its \<open>className\<close> (\<open>None\<close> when it
  is not a string, as on SVG elements), whether it has the attribute
  \<open>data-xorcist-processed\<close> and whether \<open>style.display\<close> was set to \<open>none\<close>.

  Node objects live on after they leave the tree, and static node lists keep
  pointing at them. So a node is never deleted from the model: its address is the
  path of child positions from the root, and the flag \<open>linked\<close> says whether it
  is still a child of its parent. \<open>remove()\<close> clears the flag; the children
  the DOM reports are the linked ones.
\<close>

record element =
  tagName :: string
  elem_id :: string
  className :: "string option"
  processed :: bool
  display_none :: bool

datatype node = Text bool string | Element bool element "node list"

type_synonym path = "nat list"

fun linked :: "node \<Rightarrow> bool" where
  "linked (Text l s) = l"
| "linked (Element l e cs) = l"

fun is_element :: "node \<Rightarrow> bool" where
  "is_element (Text l s) = False"
| "is_element (Element l e cs) = True"

fun slots :: "node \<Rightarrow> node list" where
  "slots (Text l s) = []"
| "slots (Element l e cs) = cs"

fun node_at :: "node \<Rightarrow> path \<Rightarrow> node option" where
  "node_at n [] = Some n"
| "node_at n (i # p) = (if i < length (slots n) then node_at (slots n ! i) p else None)"

fun update_at :: "path \<Rightarrow> (node \<Rightarrow> node) \<Rightarrow> node \<Rightarrow> node" where
  "update_at [] f n = f n"
| "update_at (i # p) f (Text l s) = Text l s"
| "update_at (i # p) f (Element l e cs) =
     Element l e (if i < length cs then cs[i := update_at p f (cs ! i)] else cs)"


fun unlink :: "node \<Rightarrow> node" where
  "unlink (Text l s) = Text False s"
| "unlink (Element l e cs) = Element False e cs"

text \<open>\<open>textContent\<close>: the text of the node's descendants that are still in its subtree.\<close>

fun textContent :: "node \<Rightarrow> string" where
  "textContent (Text l s) = s"
| "textContent (Element l e cs) = concat (map textContent (filter linked cs))"

text \<open>
  The descendants of a node in document order, as paths relative to the node;
  only children that are still linked are reached.
\<close>

fun descendants :: "node \<Rightarrow> path list"
  and descendants_from :: "nat \<Rightarrow> node list \<Rightarrow> path list" where
  "descendants (Text l s) = []"
| "descendants (Element l e cs) = descendants_from 0 cs"
| "descendants_from i [] = []"
| "descendants_from i (c # cs) =
     (if linked c then [i] # map ((#) i) (descendants c) else []) @ descendants_from (Suc i) cs"

definition elem_at :: "node \<Rightarrow> path \<Rightarrow> element option" where
  "elem_at d p = (case node_at d p of Some (Element l e cs) \<Rightarrow> Some e | _ \<Rightarrow> None)"

definition is_element_at :: "node \<Rightarrow> path \<Rightarrow> bool" where
  "is_element_at d p = (case node_at d p of Some n \<Rightarrow> is_element n | None \<Rightarrow> False)"

definition is_text_at :: "node \<Rightarrow> path \<Rightarrow> bool" where
  "is_text_at d p = (case node_at d p of Some n \<Rightarrow> \<not> is_element n | None \<Rightarrow> False)"

text \<open>\<open>el.hasAttribute('data-xorcist-processed')\<close>.\<close>

definition hasProcessed :: "node \<Rightarrow> path \<Rightarrow> bool" where
  "hasProcessed d p = (case elem_at d p of Some e \<Rightarrow> processed e | None \<Rightarrow> False)"

text \<open>\<open>node.textContent\<close> of the node at a path (\<open>''\<close> where there is none).\<close>

definition textContent_at :: "node \<Rightarrow> path \<Rightarrow> string" where
  "textContent_at d p = (case node_at d p of Some n \<Rightarrow> textContent n | None \<Rightarrow> [])"

text \<open>\<open>el.children.length\<close>: the element children.\<close>

definition children_length :: "node \<Rightarrow> path \<Rightarrow> nat" where
  "children_length d p =
     (case node_at d p of
        Some n \<Rightarrow> length (filter (\<lambda>c. linked c \<and> is_element c) (slots n))
      | None \<Rightarrow> 0)"

text \<open>
  \<open>node.parentElement\<close>. The root of the model is the \<open>html\<close> element, whose parent
  is the document and not an element.
\<close>

definition parentElement :: "node \<Rightarrow> path \<Rightarrow> path option" where
  "parentElement d p =
     (if p = [] then None
      else (case node_at d p of
              None \<Rightarrow> None
            | Some n \<Rightarrow>
                if linked n \<and> is_element_at d (butlast p) then Some (butlast p) else None))"

section \<open>Strings\<close>

text \<open>White space of \<open>String.prototype.trim\<close> and of \<open>\s\<close>, among the code units below 256.\<close>

definition is_space :: "char \<Rightarrow> bool" where
  "is_space c = (of_char c \<in> {9, 10, 11, 12, 13, 32, 160 :: nat})"

definition trim :: "string \<Rightarrow> string" where
  "trim s = rev (dropWhile is_space (rev (dropWhile is_space s)))"

definition lower_char :: "char \<Rightarrow> char" where
  "lower_char c =
     (let n = (of_char c :: nat)
      in if (65 \<le> n \<and> n \<le> 90) \<or> (192 \<le> n \<and> n \<le> 214) \<or> (216 \<le> n \<and> n \<le> 222)
         then char_of (n + 32) else c)"

definition toLowerCase :: "string \<Rightarrow> string" where
  "toLowerCase s = map lower_char s"

text \<open>
  The class of \<open>/[\s\-...|/\\:,;.!?'"()[\]{}]+/g\<close> in applyRuleToMatchingElements, among
  the code units below 256 (its dashes and its bullet lie above and do not occur in
  the model's strings; the middle dot is 183).
\<close>

definition is_separator :: "char \<Rightarrow> bool" where
  "is_separator c =
     (is_space c \<or>
      of_char c \<in> {45, 183, 124, 47, 92, 58, 44, 59, 46, 33, 63, 39, 34, 40, 41, 91, 93, 123, 125 :: nat})"

text \<open>\<open>s.includes(sub)\<close>.\<close>

fun includes_str :: "string \<Rightarrow> string \<Rightarrow> bool" where
  "includes_str [] sub = (sub = [])"
| "includes_str (c # cs) sub = (prefix sub (c # cs) \<or> includes_str cs sub)"

text \<open>\<open>s.split(/\s+/)\<close>.\<close>

function split_ws :: "string \<Rightarrow> string list" where
  "split_ws s =
     (let w = takeWhile (\<lambda>c. \<not> is_space c) s;
          r = dropWhile (\<lambda>c. \<not> is_space c) s
      in if r = [] then [w] else w # split_ws (dropWhile is_space r))"
  by pat_completeness auto
termination
proof (relation "measure length")
  show "wf (measure length)" by simp
next
  fix s :: string and w r
  assume r: "r = dropWhile (\<lambda>c. \<not> is_space c) s" and ne: "r \<noteq> []"
  have "is_space (hd r)"
    using ne hd_dropWhile [of "\<lambda>c. \<not> is_space c" s] unfolding r by auto
  then have "dropWhile is_space r = dropWhile is_space (tl r)"
    using ne by (cases r) auto
  then have "length (dropWhile is_space r) \<le> length (tl r)"
    using length_dropWhile_le [of is_space "tl r"] by simp
  also have "\<dots> < length r" using ne by (cases r) auto
  also have "\<dots> \<le> length s" unfolding r by (rule length_dropWhile_le)
  finally show "(dropWhile is_space r, s) \<in> measure length" by simp
qed

declare split_ws.simps [simp del]

text \<open>\<open>parts.join(sep)\<close>.\<close>

fun join :: "string \<Rightarrow> string list \<Rightarrow> string" where
  "join sep [] = []"
| "join sep [x] = x"
| "join sep (x # y # ys) = x @ sep @ join sep (y # ys)"

text \<open>The decimal digits of a number, as string concatenation writes them.\<close>

function show_nat :: "nat \<Rightarrow> string" where
  "show_nat n =
     (if n < 10 then [char_of (48 + n)] else show_nat (n div 10) @ [char_of (48 + n mod 10)])"
  by pat_completeness auto
termination
  by (relation "measure id") auto

declare show_nat.simps [simp del]

text \<open>\<open>xs.indexOf(x)\<close>: \<open>-1\<close> when \<open>x\<close> is not in the array.\<close>

fun indexOf :: "'a list \<Rightarrow> 'a \<Rightarrow> int" where
  "indexOf [] x = - 1"
| "indexOf (y # ys) x =
     (if y = x then 0 else (let k = indexOf ys x in if k < 0 then - 1 else k + 1))"


section \<open>What the browser provides\<close>

text \<open>
  The CSS selector engine, the regular expression engine, the HTML parser,
  \<open>CSS.escape\<close> and \<open>window.location.hostname\<close> are not code of the extension: they
  are parameters of the model.
  \<^item> \<open>valid_selector sel\<close>: \<open>querySelectorAll(sel)\<close> does not throw;
  \<^item> \<open>selector_matches sel d p\<close>: the element at \<open>p\<close> of the document \<open>d\<close> matches;
  \<^item> \<open>RegExp_valid src\<close>: \<open>new RegExp(src, 'gi')\<close> does not throw;
  \<^item> \<open>RegExp_test src text\<close>: \<open>regex.test(text)\<close> with \<open>lastIndex = 0\<close>;
  \<^item> \<open>RegExp_replace src text by\<close>: \<open>text.replace(regex, by)\<close>;
  \<^item> \<open>parseHTML e html\<close>: the child nodes that \<open>innerHTML = html\<close> creates on the
    element \<open>e\<close> (the parser works in the context of the element: on the \<open>html\<close>
    element it creates a head and a body).
\<close>

record platform =
  valid_selector :: "string \<Rightarrow> bool"
  selector_matches :: "string \<Rightarrow> node \<Rightarrow> path \<Rightarrow> bool"
  RegExp_valid :: "string \<Rightarrow> bool"
  RegExp_test :: "string \<Rightarrow> string \<Rightarrow> bool"
  RegExp_replace :: "string \<Rightarrow> string \<Rightarrow> string \<Rightarrow> string"
  parseHTML :: "element \<Rightarrow> string \<Rightarrow> node list"
  CSS_escape :: "string \<Rightarrow> string"
  location_hostname :: string

datatype error = SyntaxError | TypeError

text \<open>
  \<open>document.documentElement\<close> is the root while it is linked to the document.
  \<open>document.body\<close> is the first child of the \<open>html\<close> element that is a \<open>body\<close> or a
  \<open>frameset\<close> element, and \<open>null\<close> when there is none.
\<close>

definition documentElement :: "node \<Rightarrow> path option" where
  "documentElement d = (if linked d \<and> is_element d then Some [] else None)"

definition is_body :: "node \<Rightarrow> bool" where
  "is_body c =
     (case c of
        Text l s \<Rightarrow> False
      | Element l e cs \<Rightarrow> l \<and> toLowerCase (tagName e) \<in> {''body'', ''frameset''})"

fun first_body :: "nat \<Rightarrow> node list \<Rightarrow> path option" where
  "first_body i [] = None"
| "first_body i (c # cs) = (if is_body c then Some [i] else first_body (Suc i) cs)"

definition document_body :: "node \<Rightarrow> path option" where
  "document_body d =
     (case d of
        Text l s \<Rightarrow> None
      | Element l e cs \<Rightarrow>
          if l \<and> toLowerCase (tagName e) = ''html'' then first_body 0 cs else None)"

text \<open>\<open>document.querySelectorAll(sel)\<close>: a static list, in document order.\<close>

definition all_elements :: "node \<Rightarrow> path list" where
  "all_elements d =
     (if linked d then filter (is_element_at d) ([] # descendants d) else [])"

definition querySelectorAll :: "platform \<Rightarrow> node \<Rightarrow> string \<Rightarrow> error + path list" where
  "querySelectorAll pf d sel =
     (if valid_selector pf sel then Inr (filter (selector_matches pf sel d) (all_elements d))
      else Inl SyntaxError)"

text \<open>The nodes below the element at \<open>b\<close>, in document order, as paths from the root.\<close>

definition descendants_at :: "node \<Rightarrow> path \<Rightarrow> path list" where
  "descendants_at d b =
     (case node_at d b of None \<Rightarrow> [] | Some n \<Rightarrow> map ((@) b) (descendants n))"

text \<open>\<open>document.body.querySelectorAll('*:not(script):not(style):not(noscript)')\<close>.\<close>

definition body_elements :: "node \<Rightarrow> path \<Rightarrow> path list" where
  "body_elements d b =
     filter (\<lambda>p. case elem_at d p of
                   None \<Rightarrow> False
                 | Some e \<Rightarrow> toLowerCase (tagName e) \<notin> {''script'', ''style'', ''noscript''})
       (descendants_at d b)"

section \<open>options.js: XorcistReplacer\<close>

text \<open>The replacer's fields and the page it runs on.\<close>

record state =
  rules :: "rule list"
  enabled :: bool
  appliedCount :: nat
  document :: node

subsection \<open>loadRules\<close>

definition disabledTagIds_of :: "tag list \<Rightarrow> string list" where
  "disabledTagIds_of ts = map tag_id (filter (\<lambda>t. \<not> tag_enabled t) ts)"

definition isRuleEnabled :: "string list \<Rightarrow> string list \<Rightarrow> rule \<Rightarrow> bool" where
  "isRuleEnabled disabled disabledTagIds r =
     (if rule_id r \<in> set disabled then False
      else if rule_enabled r = Some False then False
      else (case tags r of
              None \<Rightarrow> True
            | Some ts \<Rightarrow>
                if 0 < length ts then
                  (if list_ex (\<lambda>tagId. tagId \<in> set disabledTagIds) ts then False else True)
                else True))"

definition loadRules :: "storage \<Rightarrow> state \<Rightarrow> state" where
  "loadRules stored s =
     (let disabled = or_empty (disabledRuleIds stored);
          tgs = or_empty (stored_tags stored);
          disabledTagIds = disabledTagIds_of tgs;
          s1 = s\<lparr>enabled := (stored_enabled stored \<noteq> Some False)\<rparr>;
          userRs = filter (isRuleEnabled disabled disabledTagIds) (or_empty (userRules stored));
          communityRs = filter (isRuleEnabled disabled disabledTagIds) (or_empty (communityRules stored))
      in s1\<lparr>rules := userRs @ communityRs\<rparr>)"

subsection \<open>The writes to the page\<close>

text \<open>
  Every statement of the replacer that changes the page or the counter, as a value,
  so that the order of the writes of a function can be stated:
  \<open>setAttribute('data-xorcist-processed', 'true')\<close>, \<open>this.appliedCount++\<close>,
  \<open>element.remove()\<close>, \<open>element.innerHTML = html\<close>, \<open>element.style.display = 'none'\<close>
  and \<open>node.textContent = text\<close>.
\<close>

datatype effect =
    SetProcessed path
  | IncApplied
  | Remove path
  | SetInnerHTML path string
  | SetDisplayNone path
  | SetTextContent path string

fun mark_node :: "node \<Rightarrow> node" where
  "mark_node (Text l s) = Text l s"
| "mark_node (Element l e cs) = Element l (e\<lparr>processed := True\<rparr>) cs"

fun hide_node :: "node \<Rightarrow> node" where
  "hide_node (Text l s) = Text l s"
| "hide_node (Element l e cs) = Element l (e\<lparr>display_none := True\<rparr>) cs"

fun set_innerHTML :: "platform \<Rightarrow> string \<Rightarrow> node \<Rightarrow> node" where
  "set_innerHTML pf html (Text l s) = Text l s"
| "set_innerHTML pf html (Element l e cs) = Element l e (map unlink cs @ parseHTML pf e html)"

fun set_text :: "string \<Rightarrow> node \<Rightarrow> node" where
  "set_text t (Text l s) = Text l t"
| "set_text t (Element l e cs) =
     Element l e (map unlink cs @ (if t = [] then [] else [Text True t]))"

fun exec :: "platform \<Rightarrow> effect \<Rightarrow> state \<Rightarrow> state" where
  "exec pf (SetProcessed p) s = s\<lparr>document := update_at p mark_node (document s)\<rparr>"
| "exec pf IncApplied s = s\<lparr>appliedCount := appliedCount s + 1\<rparr>"
| "exec pf (Remove p) s = s\<lparr>document := update_at p unlink (document s)\<rparr>"
| "exec pf (SetInnerHTML p html) s =
     s\<lparr>document := update_at p (set_innerHTML pf html) (document s)\<rparr>"
| "exec pf (SetDisplayNone p) s = s\<lparr>document := update_at p hide_node (document s)\<rparr>"
| "exec pf (SetTextContent p t) s = s\<lparr>document := update_at p (set_text t) (document s)\<rparr>"

text \<open>The writes of a function run in their order.\<close>

definition run :: "platform \<Rightarrow> effect list \<Rightarrow> state \<Rightarrow> state" where
  "run pf effs s = foldl (\<lambda>t e. exec pf e t) s effs"

text \<open>
  The same with writes that can throw: \<open>throws e\<close> says that the write \<open>e\<close> throws
  instead of taking effect. The result is the state the throw leaves behind and whether
  there was one.
\<close>

fun run_throwing :: "(effect \<Rightarrow> bool) \<Rightarrow> platform \<Rightarrow> effect list \<Rightarrow> state \<Rightarrow> state \<times> bool" where
  "run_throwing throws pf [] s = (s, False)"
| "run_throwing throws pf (e # es) s =
     (if throws e then (s, True) else run_throwing throws pf es (exec pf e s))"

text \<open>The writes that mutate the page's content, as opposed to marking and counting.\<close>

fun is_mutation :: "effect \<Rightarrow> bool" where
  "is_mutation (SetProcessed p) = False"
| "is_mutation IncApplied = False"
| "is_mutation (Remove p) = True"
| "is_mutation (SetInnerHTML p html) = True"
| "is_mutation (SetDisplayNone p) = True"
| "is_mutation (SetTextContent p t) = True"

subsection \<open>applyRuleToElement\<close>

definition applyRuleToElement_writes :: "rule \<Rightarrow> path \<Rightarrow> state \<Rightarrow> effect list" where
  "applyRuleToElement_writes r el s =
     (if hasProcessed (document s) el then []
      else [SetProcessed el, IncApplied] @
        (if action r = ''remove'' then [Remove el]
         else if action r = ''replace'' then
           (case replacement r of
              None \<Rightarrow> []
            | Some html \<Rightarrow> if html \<noteq> [] then [SetInnerHTML el html] else [])
         else if action r = ''hide'' then [SetDisplayNone el]
         else []))"

definition applyRuleToElement :: "platform \<Rightarrow> path \<Rightarrow> rule \<Rightarrow> state \<Rightarrow> state" where
  "applyRuleToElement pf el r s = run pf (applyRuleToElement_writes r el s) s"

subsection \<open>applyRuleToTextNode\<close>

text \<open>The source of \<open>new RegExp(rule.contentPattern, 'gi')\<close>; \<open>undefined\<close> gives \<open>(?:)\<close>.\<close>

definition pattern_source :: "rule \<Rightarrow> string" where
  "pattern_source r = (case contentPattern r of None \<Rightarrow> ''(?:)'' | Some p \<Rightarrow> p)"

definition applyRuleToTextNode_writes :: "platform \<Rightarrow> path \<Rightarrow> rule \<Rightarrow> state \<Rightarrow> effect list" where
  "applyRuleToTextNode_writes pf textNode r s =
     (case parentElement (document s) textNode of
        None \<Rightarrow> []
      | Some parent \<Rightarrow>
          if hasProcessed (document s) parent then []
          else if \<not> RegExp_valid pf (pattern_source r) then []
          else if action r = ''remove'' then
            (let old = textContent_at (document s) textNode;
                 newText = RegExp_replace pf (pattern_source r) old []
             in if newText \<noteq> old
                then [SetTextContent textNode newText, SetProcessed parent, IncApplied]
                else [])
          else if action r = ''replace'' then
            (let old = textContent_at (document s) textNode;
                 replaced = RegExp_replace pf (pattern_source r) old
                              (case replacement r of None \<Rightarrow> [] | Some t \<Rightarrow> t)
             in if replaced \<noteq> old
                then [SetTextContent textNode replaced, SetProcessed parent, IncApplied]
                else [])
          else [])"

definition applyRuleToTextNode :: "platform \<Rightarrow> path \<Rightarrow> rule \<Rightarrow> state \<Rightarrow> state" where
  "applyRuleToTextNode pf textNode r s = run pf (applyRuleToTextNode_writes pf textNode r s) s"


subsection \<open>applyRuleToMatchingElements\<close>

text \<open>
  The body of the loop up to the call of applyRuleToElement: whether the element
  \<open>el\<close> of the page \<open>d\<close> is handed to applyRuleToElement for the pattern \<open>pat\<close>.
\<close>

definition qualifies :: "platform \<Rightarrow> string \<Rightarrow> node \<Rightarrow> path \<Rightarrow> bool" where
  "qualifies pf pat d el =
     (if hasProcessed d el then False
      else
        (let text = trim (textContent_at d el)
         in if text = [] then False
            else if \<not> RegExp_test pf pat text then False
            else
              (let patternLen = length pat;
                   shouldRemove =
                     (if patternLen \<le> 3 then
                        (let normalized = filter (\<lambda>c. \<not> is_separator c) (toLowerCase text)
                         in length normalized \<le> patternLen + 2)
                      else if patternLen \<le> 20 then length text \<le> patternLen * 3
                      else True)
               in shouldRemove \<and> (children_length d el = 0 \<or> length text < 100))))"

definition applyRuleToMatchingElements :: "platform \<Rightarrow> rule \<Rightarrow> state \<Rightarrow> error + state" where
  "applyRuleToMatchingElements pf r s =
     (case document_body (document s) of
        None \<Rightarrow> Inl TypeError
      | Some b \<Rightarrow>
          (case contentPattern r of
             None \<Rightarrow> Inl TypeError
           | Some pat \<Rightarrow>
               Inr (foldl
                     (\<lambda>t el. if qualifies pf pat (document t) el
                             then applyRuleToElement pf el r t else t)
                     s (body_elements (document s) b))))"

subsection \<open>replaceMatchingText\<close>

lemma parentElement_shorter: "parentElement d p = Some q \<Longrightarrow> length q < length p"
  by (cases p rule: rev_cases) (auto simp: parentElement_def split: option.splits if_splits)

text \<open>\<open>el.closest('[data-xorcist-processed]')\<close> is not \<open>null\<close>.\<close>

function closest_processed :: "node \<Rightarrow> path \<Rightarrow> bool" where
  "closest_processed d p =
     (if hasProcessed d p then True
      else (case parentElement d p of None \<Rightarrow> False | Some q \<Rightarrow> closest_processed d q))"
  by pat_completeness auto
termination
  by (relation "measure (\<lambda>(d, p). length p)") (auto dest: parentElement_shorter)

declare closest_processed.simps [simp del]

text \<open>The filter of the tree walker, on a text node.\<close>

definition acceptNode :: "node \<Rightarrow> path \<Rightarrow> bool" where
  "acceptNode d nd =
     (case parentElement d nd of
        None \<Rightarrow> False
      | Some parent \<Rightarrow>
          (case elem_at d parent of
             None \<Rightarrow> False
           | Some e \<Rightarrow>
               if toLowerCase (tagName e) \<in> {''script'', ''style'', ''noscript'', ''textarea'', ''input''}
               then False
               else if closest_processed d parent then False
               else True))"

definition replaceMatchingText :: "platform \<Rightarrow> rule \<Rightarrow> state \<Rightarrow> error + state" where
  "replaceMatchingText pf r s =
     (case document_body (document s) of
        None \<Rightarrow> Inl TypeError
      | Some b \<Rightarrow>
          (let d = document s;
               walked = filter (\<lambda>nd. is_text_at d nd \<and> acceptNode d nd) (descendants_at d b);
               nodesToProcess =
                 filter (\<lambda>nd. RegExp_test pf (pattern_source r) (textContent_at d nd)) walked
           in Inr (foldl (\<lambda>t textNode. applyRuleToTextNode pf textNode r t) s nodesToProcess)))"

subsection \<open>applyRuleByContent, applyRuleToPage, applyAll\<close>

definition applyRuleByContent :: "platform \<Rightarrow> rule \<Rightarrow> state \<Rightarrow> error + state" where
  "applyRuleByContent pf r s =
     (if \<not> RegExp_valid pf (pattern_source r) then Inr s
      else if action r = ''remove'' \<or> action r = ''hide'' then applyRuleToMatchingElements pf r s
      else replaceMatchingText pf r s)"

text \<open>
  The \<open>try\<close> block of applyRuleToPage: the query and the loop over its result. A
  \<open>SyntaxError\<close> of the query is caught and leaves the page as it was.
\<close>

definition apply_selector :: "platform \<Rightarrow> rule \<Rightarrow> string \<Rightarrow> state \<Rightarrow> state" where
  "apply_selector pf r sel s =
     (case querySelectorAll pf (document s) sel of
        Inl e \<Rightarrow> s
      | Inr elements \<Rightarrow>
          foldl (\<lambda>t el. if \<not> hasProcessed (document t) el then applyRuleToElement pf el r t else t)
            s elements)"

definition applyRuleToPage :: "platform \<Rightarrow> rule \<Rightarrow> state \<Rightarrow> error + state" where
  "applyRuleToPage pf r s =
     (if \<not> truthy (contentPattern r) \<and> \<not> truthy (selector r) then Inr s
      else
        (let s1 = (case selector r of
                     None \<Rightarrow> s
                   | Some sel \<Rightarrow> if sel = [] then s else apply_selector pf r sel s)
         in if truthy (contentPattern r) then applyRuleByContent pf r s1 else Inr s1))"

text \<open>A \<open>for\<close> loop whose body can throw: the first throw ends it.\<close>

fun for_each :: "('a \<Rightarrow> state \<Rightarrow> error + state) \<Rightarrow> 'a list \<Rightarrow> state \<Rightarrow> error + state" where
  "for_each f [] s = Inr s"
| "for_each f (x # xs) s = (case f x s of Inl e \<Rightarrow> Inl e | Inr t \<Rightarrow> for_each f xs t)"

text \<open>The filter of applyAll: the rules that apply to this host name.\<close>

definition rule_applies :: "string \<Rightarrow> rule \<Rightarrow> bool" where
  "rule_applies host r =
     (if \<not> truthy (hostname r) \<or> hostname r = Some ''*'' then True
      else (case hostname r of None \<Rightarrow> True | Some h \<Rightarrow> includes_str host h))"

definition applicableRules :: "string \<Rightarrow> rule list \<Rightarrow> rule list" where
  "applicableRules host rs = filter (rule_applies host) rs"

definition applyAll :: "platform \<Rightarrow> state \<Rightarrow> error + state" where
  "applyAll pf s =
     (if \<not> enabled s then Inr s
      else
        (let host = location_hostname pf;
             s0 = s\<lparr>appliedCount := 0\<rparr>;
             applicable = applicableRules host (rules s0)
         in if length applicable = 0 then Inr s0
            else for_each (applyRuleToPage pf) applicable s0))"

section \<open>reporter.js: generateSelector\<close>

text \<open>The class part of one step: at most two classes, without the extension's own.\<close>

definition class_selectors :: "platform \<Rightarrow> string option \<Rightarrow> string" where
  "class_selectors pf cn =
     (case cn of
        None \<Rightarrow> []
      | Some c \<Rightarrow>
          if c = [] then []
          else concat (map (\<lambda>cls. if cls \<noteq> [] \<and> \<not> prefix ''xorcist-'' cls
                                  then ''.'' @ CSS_escape pf cls else [])
                         (take 2 (split_ws (trim c)))))"

text \<open>
  The \<open>:nth-of-type\<close> part: the children of the parent with the tag name of \<open>current\<close>
  are kept as child positions; \<open>current\<close> is the child at the last position of its path.
\<close>

definition nth_of_type :: "node \<Rightarrow> path \<Rightarrow> path \<Rightarrow> string" where
  "nth_of_type d parent current =
     (case node_at d parent of
        None \<Rightarrow> []
      | Some pn \<Rightarrow>
          (let cs = slots pn;
               siblings = filter (\<lambda>i. linked (cs ! i) \<and> is_element (cs ! i) \<and>
                                      map_option tagName (elem_at d (parent @ [i]))
                                        = map_option tagName (elem_at d current))
                            [0 ..< length cs]
           in if 1 < length siblings
              then '':nth-of-type('' @ show_nat (nat (indexOf siblings (last current) + 1)) @ '')''
              else []))"

function gs_walk :: "platform \<Rightarrow> node \<Rightarrow> path \<Rightarrow> string list \<Rightarrow> string list" where
  "gs_walk pf d current acc =
     (if document_body d = Some current \<or> documentElement d = Some current then acc
      else
        (case elem_at d current of
           None \<Rightarrow> acc
         | Some e \<Rightarrow>
             (let sel = toLowerCase (tagName e) @ class_selectors pf (className e)
              in case parentElement d current of
                   None \<Rightarrow> sel # acc
                 | Some parent \<Rightarrow>
                     gs_walk pf d parent ((sel @ nth_of_type d parent current) # acc))))"
  by pat_completeness auto
termination
  by (relation "measure (\<lambda>(pf, d, p, acc). length p)") (auto dest: parentElement_shorter)

declare gs_walk.simps [simp del]

definition generateSelector :: "platform \<Rightarrow> node \<Rightarrow> path \<Rightarrow> string" where
  "generateSelector pf d el =
     (case elem_at d el of
        None \<Rightarrow> []
      | Some e \<Rightarrow>
          if elem_id e \<noteq> [] then ''#'' @ CSS_escape pf (elem_id e)
          else join '' > '' (gs_walk pf d el []))"


section \<open>The resolver as the specification words it\<close>

text \<open>
  The specification's effectiveness condition, written from its sentence and not from
  the code: the rule's id is not in the disabled-id overlay \<open>D\<close>, its own \<open>enabled\<close>
  flag is not \<open>false\<close>, and none of its tag ids is the id of a tag of \<open>T\<close> whose
  \<open>enabled\<close> flag is \<open>false\<close>.
\<close>

definition spec_effective :: "string list \<Rightarrow> tag list \<Rightarrow> rule \<Rightarrow> bool" where
  "spec_effective D T r =
     (rule_id r \<notin> set D \<and> rule_enabled r \<noteq> Some False \<and>
      (\<forall>tid \<in> set (or_empty (tags r)).
         \<not> (\<exists>t \<in> set T. tag_id t = tid \<and> tag_enabled t = False)))"

section \<open>Vocabulary of the proofs\<close>

text \<open>A write at the root of a subtree that keeps the marks and the elements below it.\<close>

definition keeps_marks :: "(node \<Rightarrow> node) \<Rightarrow> bool" where
  "keeps_marks f = (\<forall>n q. (hasProcessed n q \<longrightarrow> hasProcessed (f n) q) \<and>
                          (is_element_at n q \<longrightarrow> is_element_at (f n) q))"

text \<open>From \<open>s\<close> to \<open>t\<close> no mark was cleared and no element stopped being one.\<close>

definition grows :: "state \<Rightarrow> state \<Rightarrow> bool" where
  "grows s t = (\<forall>q. (hasProcessed (document s) q \<longrightarrow> hasProcessed (document t) q) \<and>
                    (is_element_at (document s) q \<longrightarrow> is_element_at (document t) q))"


text \<open>The page without the replacer's marks and without the hiding.\<close>

definition unmarked :: "element \<Rightarrow> element" where
  "unmarked e = e\<lparr>processed := False, display_none := False\<rparr>"

fun shape :: "node \<Rightarrow> node" where
  "shape (Text l s) = Text l s"
| "shape (Element l e cs) = Element l (unmarked e) (map shape cs)"

text \<open>
  From \<open>s\<close> to \<open>t\<close> only marks were set and elements hidden: the page is the same
  apart from them, the rules and the switch are the same, and no mark was cleared.
\<close>

definition calm :: "state \<Rightarrow> state \<Rightarrow> bool" where
  "calm s t =
     (shape (document t) = shape (document s) \<and> rules t = rules s \<and> enabled t = enabled s \<and>
      (\<forall>q. hasProcessed (document s) q \<longrightarrow> hasProcessed (document t) q))"

text \<open>
  A selector that looks neither at the attribute \<open>data-xorcist-processed\<close> nor at the
  inline \<open>display\<close> the replacer sets: it matches the same elements on a page with and
  without them. Type, class and id selectors are of this kind, attribute selectors on
  these two attributes are not.
\<close>

definition mark_blind :: "platform \<Rightarrow> string \<Rightarrow> bool" where
  "mark_blind pf sel =
     (\<forall>d p. selector_matches pf sel (shape d) p = selector_matches pf sel d p)"

text \<open>A rule that hides, and whose selector, if it has one that is used, is of this kind.\<close>

definition hides_blindly :: "platform \<Rightarrow> rule \<Rightarrow> bool" where
  "hides_blindly pf r =
     (action r = ''hide'' \<and>
      (\<forall>sel. selector r = Some sel \<and> sel \<noteq> [] \<and> valid_selector pf sel \<longrightarrow> mark_blind pf sel))"

text \<open>
  A rule has nothing left to do on a page: every element its selector matches is marked,
  and no element of the body qualifies for its pattern.
\<close>

definition quiet_selector :: "platform \<Rightarrow> rule \<Rightarrow> node \<Rightarrow> bool" where
  "quiet_selector pf r d =
     (\<forall>sel. selector r = Some sel \<and> sel \<noteq> [] \<and> valid_selector pf sel \<longrightarrow>
        (\<forall>el \<in> set (filter (selector_matches pf sel d) (all_elements d)). hasProcessed d el))"

definition quiet_content :: "platform \<Rightarrow> rule \<Rightarrow> node \<Rightarrow> bool" where
  "quiet_content pf r d =
     (truthy (contentPattern r) \<and> RegExp_valid pf (pattern_source r) \<longrightarrow>
        (\<exists>b pat. document_body d = Some b \<and> contentPattern r = Some pat \<and>
           (\<forall>el \<in> set (body_elements d b). \<not> qualifies pf pat d el)))"

text \<open>
  A call of generateSelector as a step of the page's state: the function assigns to
  its locals only, so the state it leaves is the state it found.
\<close>

definition generateSelector_call :: "platform \<Rightarrow> path \<Rightarrow> state \<Rightarrow> string \<times> state" where
  "generateSelector_call pf el s = (generateSelector pf (document s) el, s)"

text \<open>Every strategy the rule has is malformed: its selector, if it has one, and its
  pattern, if it has one.\<close>

definition nothing_valid :: "platform \<Rightarrow> rule \<Rightarrow> bool" where
  "nothing_valid pf r =
     ((\<forall>sel. selector r = Some sel \<and> sel \<noteq> [] \<longrightarrow> \<not> valid_selector pf sel) \<and>
      (truthy (contentPattern r) \<longrightarrow> \<not> RegExp_valid pf (pattern_source r)))"

text \<open>The result of a call with the field \<open>rules\<close> set to \<open>R\<close>.\<close>

definition with_rules :: "rule list \<Rightarrow> error + state \<Rightarrow> error + state" where
  "with_rules R res = (case res of Inl e \<Rightarrow> Inl e | Inr t \<Rightarrow> Inr (t\<lparr>rules := R\<rparr>))"

text \<open>
  The mutation a rule asks for on an element, by its action, and the text a rule asks
  for in place of the text \<open>old\<close> of a text node: the matches deleted for \<open>remove\<close>,
  replaced by the rule's replacement (or by nothing, when it has none) otherwise.
\<close>

definition element_mutation :: "rule \<Rightarrow> path \<Rightarrow> effect list" where
  "element_mutation r el =
     (if action r = ''remove'' then [Remove el]
      else if action r = ''replace'' then
        (case replacement r of
           None \<Rightarrow> []
         | Some html \<Rightarrow> if html = [] then [] else [SetInnerHTML el html])
      else if action r = ''hide'' then [SetDisplayNone el]
      else [])"

definition rewritten :: "platform \<Rightarrow> rule \<Rightarrow> string \<Rightarrow> string" where
  "rewritten pf r old =
     RegExp_replace pf (pattern_source r) old
       (if action r = ''remove'' then []
        else (case replacement r of None \<Rightarrow> [] | Some t \<Rightarrow> t))"

section \<open>A small browser for the examples\<close>

text \<open>
  The examples below need a selector engine and a regular expression engine that
  compute. \<open>demo\<close> knows what the examples use and agrees with a browser there:
  \<^item> a selector made of letters and digits only is a type selector, matched against the
    tag name without regard to case; every other selector is taken as malformed
    (the examples use \<open>a[\<close>, which is);
  \<^item> a pattern made of letters and digits only matches where the text contains it
    without regard to case, and replacing substitutes every such occurrence (by a
    replacement without \<open>$\<close>); the pattern \<open>^\<close> matches every string at its start, the
    empty string too, and replacing puts the replacement in front; every other pattern
    is taken as malformed (the examples use \<open>(\<close>, which is);
  \<^item> markup without \<open><\<close> and \<open>&\<close> parses to one text node, on the \<open>html\<close> element to
    an empty head and a body with that text node; \<open>CSS.escape\<close> leaves a name of
    letters, digits and hyphens as it is.
\<close>

definition is_alnum :: "char \<Rightarrow> bool" where
  "is_alnum c =
     (let n = (of_char c :: nat)
      in (48 \<le> n \<and> n \<le> 57) \<or> (65 \<le> n \<and> n \<le> 90) \<or> (97 \<le> n \<and> n \<le> 122))"

definition is_word :: "string \<Rightarrow> bool" where
  "is_word w = (w \<noteq> [] \<and> list_all is_alnum w)"

function replace_word :: "string \<Rightarrow> string \<Rightarrow> string \<Rightarrow> string" where
  "replace_word w by text =
     (case text of
        [] \<Rightarrow> []
      | c # cs \<Rightarrow>
          if w \<noteq> [] \<and> prefix (toLowerCase w) (toLowerCase text)
          then by @ replace_word w by (drop (length w) text)
          else c # replace_word w by cs)"
  by pat_completeness auto
termination
  by (relation "measure (\<lambda>(w, by, text). length text)") auto

declare replace_word.simps [simp del]

definition demo_test :: "string \<Rightarrow> string \<Rightarrow> bool" where
  "demo_test src text =
     (if src = ''^'' then True else includes_str (toLowerCase text) (toLowerCase src))"

definition demo_replace :: "string \<Rightarrow> string \<Rightarrow> string \<Rightarrow> string" where
  "demo_replace src text by =
     (if src = ''^'' then by @ text
      else replace_word src by text)"

definition demo_matches :: "string \<Rightarrow> node \<Rightarrow> path \<Rightarrow> bool" where
  "demo_matches sel d p =
     (case elem_at d p of
        None \<Rightarrow> False
      | Some e \<Rightarrow> toLowerCase (tagName e) = toLowerCase sel)"

definition demo_parse :: "element \<Rightarrow> string \<Rightarrow> node list" where
  "demo_parse e html =
     (let texts = (if html = [] then [] else [Text True html])
      in if toLowerCase (tagName e) = ''html''
         then [Element True
                 \<lparr>tagName = ''HEAD'', elem_id = [], className = Some [], processed = False,
                  display_none = False\<rparr> [],
               Element True
                 \<lparr>tagName = ''BODY'', elem_id = [], className = Some [], processed = False,
                  display_none = False\<rparr> texts]
         else texts)"

definition demo :: platform where
  "demo =
     \<lparr>valid_selector = is_word,
      selector_matches = demo_matches,
      RegExp_valid = (\<lambda>src. is_word src \<or> src = ''^''),
      RegExp_test = demo_test,
      RegExp_replace = demo_replace,
      parseHTML = demo_parse,
      CSS_escape = (\<lambda>name. name),
      location_hostname = ''news.example.com''\<rparr>"

text \<open>An element without id, classes and marks; a page; a rule with nothing set.\<close>

definition plain :: "string \<Rightarrow> element" where
  "plain tg =
     \<lparr>tagName = tg, elem_id = [], className = Some [], processed = False, display_none = False\<rparr>"

definition page :: "node list \<Rightarrow> node" where
  "page body_children =
     Element True (plain ''HTML'') [Element True (plain ''BODY'') body_children]"

definition blank_rule :: rule where
  "blank_rule =
     \<lparr>rule_id = ''r'', rule_enabled = None, tags = None, hostname = None, selector = None,
      contentPattern = None, action = [], replacement = None\<rparr>"

definition start :: "rule list \<Rightarrow> node \<Rightarrow> state" where
  "start rs d = \<lparr>rules = rs, enabled = True, appliedCount = 0, document = d\<rparr>"

text \<open>What a call leaves in the counter, and the page it leaves; a throw is \<open>None\<close>.\<close>

definition count_of :: "error + state \<Rightarrow> nat option" where
  "count_of res = (case res of Inl e \<Rightarrow> None | Inr s \<Rightarrow> Some (appliedCount s))"

definition page_of :: "error + state \<Rightarrow> node option" where
  "page_of res = (case res of Inl e \<Rightarrow> None | Inr s \<Rightarrow> Some (document s))"

text \<open>One call after another; a throw of the first ends both.\<close>

definition and_then :: "error + state \<Rightarrow> (state \<Rightarrow> error + state) \<Rightarrow> error + state" where
  "and_then res f = (case res of Inl e \<Rightarrow> Inl e | Inr s \<Rightarrow> f s)"

text \<open>
  The specification's scenario for the resolver: a local rule tagged \<open>t1\<close>, a community
  rule, and the tag \<open>t1\<close> disabled.
\<close>

definition ex_L1 :: rule where
  "ex_L1 = blank_rule\<lparr>rule_id := ''L1'', tags := Some [''t1'']\<rparr>"

definition ex_C1 :: rule where
  "ex_C1 = blank_rule\<lparr>rule_id := ''C1''\<rparr>"

definition ex_store :: storage where
  "ex_store =
     \<lparr>communityRules = Some [ex_C1], userRules = Some [ex_L1], disabledRuleIds = None,
      stored_tags = Some [\<lparr>tag_id = ''t1'', tag_enabled = False\<rparr>], stored_enabled = None\<rparr>"

text \<open>A rule for hosts whose name contains \<open>example\<close>.\<close>

definition ex_hosted :: rule where
  "ex_hosted = blank_rule\<lparr>hostname := Some ''example''\<rparr>"

text \<open>
  Two rules that hide what matches \<open>ab\<close>: one for hosts whose name contains
  \<open>example\<close>, one for hosts whose name contains \<open>Example\<close>.
\<close>

definition ex_hosted_hide :: rule where
  "ex_hosted_hide = ex_hosted\<lparr>contentPattern := Some ''ab'', action := ''hide''\<rparr>"

definition ex_capital_hide :: rule where
  "ex_capital_hide =
     ex_hosted\<lparr>hostname := Some ''Example'', contentPattern := Some ''ab'', action := ''hide''\<rparr>"

text \<open>A paragraph with the text \<open>x\<close>, and a rule that replaces \<open>x\<close> by \<open>y\<close>.\<close>

definition ex_replace :: rule where
  "ex_replace = blank_rule\<lparr>contentPattern := Some ''x'', action := ''replace'', replacement := Some ''y''\<rparr>"

definition ex_par :: node where
  "ex_par = page [Element True (plain ''P'') [Text True ''x'']]"

text \<open>A replace rule without a replacement; a remove rule for \<open>ab\<close>.\<close>

definition ex_bare_replace :: rule where
  "ex_bare_replace = blank_rule\<lparr>selector := Some ''p'', action := ''replace''\<rparr>"

definition ex_remove :: rule where
  "ex_remove = blank_rule\<lparr>contentPattern := Some ''ab'', action := ''remove''\<rparr>"

text \<open>
  A page with a paragraph \<open>ab\<close> and a block of three spans \<open>a\<close>, \<open>xab\<close>, \<open>b\<close>.
\<close>

definition ex_page :: node where
  "ex_page =
     page [Element True (plain ''P'') [Text True ''ab''],
           Element True (plain ''DIV'')
             [Element True (plain ''SPAN'') [Text True ''a''],
              Element True (plain ''SPAN'') [Text True ''xab''],
              Element True (plain ''SPAN'') [Text True ''b'']]]"

text \<open>A rule with a malformed selector and a rule with a malformed pattern.\<close>

definition ex_bad_selector :: rule where
  "ex_bad_selector = blank_rule\<lparr>selector := Some ''a['', action := ''hide''\<rparr>"

definition ex_bad_pattern :: rule where
  "ex_bad_pattern = blank_rule\<lparr>contentPattern := Some ''('', action := ''remove''\<rparr>"

text \<open>A rule that hides what matches \<open>ab\<close>.\<close>

definition ex_hide :: rule where
  "ex_hide = blank_rule\<lparr>contentPattern := Some ''ab'', action := ''hide''\<rparr>"

text \<open>An empty span; a paragraph of 500 characters with \<open>ab\<close> in the middle; one of
  \<open>ab\<close> and 498 full stops.\<close>

definition ex_empty :: node where
  "ex_empty = page [Element True (plain ''SPAN'') []]"

definition ex_long :: node where
  "ex_long =
     page [Element True (plain ''P'')
             [Text True (replicate 249 CHR ''z'' @ ''ab'' @ replicate 249 CHR ''z'')]]"

definition ex_dots :: node where
  "ex_dots = page [Element True (plain ''P'') [Text True (''ab'' @ replicate 498 CHR ''.'')]]"

text \<open>
  A list with two items of the classes \<open>item\<close>, \<open>new xorcist-highlight big\<close>, and an
  element with an id.
\<close>

definition ex_list :: node where
  "ex_list =
     page [Element True (plain ''UL'')
             [Element True ((plain ''LI'')\<lparr>className := Some ''item''\<rparr>) [Text True ''one''],
              Text True '' '',
              Element True ((plain ''LI'')\<lparr>className := Some '' new  xorcist-highlight big ''\<rparr>)
                [Element True ((plain ''A'')\<lparr>elem_id := ''top''\<rparr>) [],
                 Element True (plain ''B'') [Text True ''two'']]]]"

text \<open>
  \<open>demo\<close> with one selector more, which looks at the replacer's mark:
  \<open>[data-xorcist-processed] > span\<close> matches a \<open>span\<close> whose parent element has the
  attribute.
\<close>

definition demo_marks_matches :: "string \<Rightarrow> node \<Rightarrow> path \<Rightarrow> bool" where
  "demo_marks_matches sel d p =
     (if sel = ''[data-xorcist-processed] > span'' then
        (case elem_at d p of
           None \<Rightarrow> False
         | Some e \<Rightarrow>
             toLowerCase (tagName e) = ''span'' \<and>
             (case parentElement d p of None \<Rightarrow> False | Some q \<Rightarrow> hasProcessed d q))
      else demo_matches sel d p)"

definition demo_marks :: platform where
  "demo_marks =
     demo\<lparr>valid_selector := (\<lambda>sel. is_word sel \<or> sel = ''[data-xorcist-processed] > span''),
          selector_matches := demo_marks_matches\<rparr>"

text \<open>
  Rules that hide: the spans and what matches \<open>ab\<close>; the spans that are children of a
  marked element; the blocks. A rule that replaces \<open>x\<close> by nothing. A page with a
  paragraph \<open>x\<close> and a block around a span \<open>abxxx\<close>.
\<close>

definition ex_hide_spans :: rule where
  "ex_hide_spans =
     blank_rule\<lparr>selector := Some ''span'', contentPattern := Some ''ab'', action := ''hide''\<rparr>"

definition ex_hide_children :: rule where
  "ex_hide_children =
     blank_rule\<lparr>selector := Some ''[data-xorcist-processed] > span'', action := ''hide''\<rparr>"

definition ex_hide_blocks :: rule where
  "ex_hide_blocks = blank_rule\<lparr>selector := Some ''div'', action := ''hide''\<rparr>"

definition ex_strip :: rule where
  "ex_strip = blank_rule\<lparr>contentPattern := Some ''x'', action := ''replace''\<rparr>"

definition ex_block :: node where
  "ex_block =
     page [Element True (plain ''P'') [Text True ''x''],
           Element True (plain ''DIV'') [Element True (plain ''SPAN'') [Text True ''abxxx'']]]"

text \<open>
  A rule that hides what matches \<open>ab\<close> and has a malformed selector; a rule that
  removes the body; a page without a body.
\<close>

definition ex_mixed :: rule where
  "ex_mixed =
     blank_rule\<lparr>selector := Some ''a['', contentPattern := Some ''ab'', action := ''hide''\<rparr>"

definition ex_remove_body :: rule where
  "ex_remove_body = blank_rule\<lparr>selector := Some ''body'', action := ''remove''\<rparr>"

definition ex_no_body :: node where
  "ex_no_body = Element True (plain ''HTML'') [Element True (plain ''HEAD'') []]"

section \<open>The resolver\<close>

lemma isRuleEnabled_spec:
  "isRuleEnabled D (disabledTagIds_of T) r = spec_effective D T r"
  by (auto simp: isRuleEnabled_def disabledTagIds_of_def spec_effective_def or_empty_def
        list_ex_iff split: option.splits)

lemma bg_isRuleEnabled_spec:
  "bg_isRuleEnabled D (bg_disabledTagIds T) r = spec_effective D T r"
  by (auto simp: bg_isRuleEnabled_def bg_disabledTagIds_def spec_effective_def or_empty_def
        list_ex_iff split: option.splits)

lemma rules_loadRules:
  "rules (loadRules stored s) =
     filter (spec_effective (or_empty (disabledRuleIds stored)) (or_empty (stored_tags stored)))
       (or_empty (userRules stored)) @
     filter (spec_effective (or_empty (disabledRuleIds stored)) (or_empty (stored_tags stored)))
       (or_empty (communityRules stored))"
  by (simp add: loadRules_def Let_def isRuleEnabled_spec [abs_def])

lemma getMergedRules_eq:
  "getMergedRules stored =
     filter (spec_effective (or_empty (disabledRuleIds stored)) (or_empty (stored_tags stored)))
       (or_empty (userRules stored)) @
     filter (spec_effective (or_empty (disabledRuleIds stored)) (or_empty (stored_tags stored)))
       (or_empty (communityRules stored))"
  by (simp add: getMergedRules_def Let_def bg_isRuleEnabled_spec [abs_def])

text \<open>
  C1. A rule is in the effective list of loadRules, and in that of getMergedRules, if
  and only if it is one of the stored user or community rules, its id is not in the
  disabled ids, its own \<open>enabled\<close> is not \<open>false\<close>, and none of its tag ids is the id
  of a tag whose \<open>enabled\<close> is \<open>false\<close>. For a rule without tags the tag condition
  holds whatever the tags are.
\<close>

theorem effectiveness_invariant:
  "(r \<in> set (rules (loadRules stored s)) \<longleftrightarrow>
      r \<in> set (or_empty (userRules stored) @ or_empty (communityRules stored)) \<and>
      spec_effective (or_empty (disabledRuleIds stored)) (or_empty (stored_tags stored)) r) \<and>
   (r \<in> set (getMergedRules stored) \<longleftrightarrow>
      r \<in> set (or_empty (userRules stored) @ or_empty (communityRules stored)) \<and>
      spec_effective (or_empty (disabledRuleIds stored)) (or_empty (stored_tags stored)) r) \<and>
   (or_empty (tags r) = [] \<longrightarrow>
      spec_effective D T r = (rule_id r \<notin> set D \<and> rule_enabled r \<noteq> Some False))"
  by (auto simp: rules_loadRules getMergedRules_eq spec_effective_def)

theorem effectiveness_invariant_witness:
  "ex_L1 \<notin> set (rules (loadRules ex_store (start [] (page [])))) \<and>
   ex_C1 \<in> set (rules (loadRules ex_store (start [] (page [])))) \<and>
   spec_effective [] [\<lparr>tag_id = ''t1'', tag_enabled = False\<rparr>] ex_C1"
proof -
  have a: "ex_L1 \<notin> set (rules (loadRules ex_store (start [] (page []))))"
    using effectiveness_invariant [of ex_L1 ex_store "start [] (page [])" "[]" "[]"]
    by (simp add: spec_effective_def ex_store_def ex_L1_def ex_C1_def blank_rule_def or_empty_def)
  have b: "ex_C1 \<in> set (rules (loadRules ex_store (start [] (page []))))"
    using effectiveness_invariant [of ex_C1 ex_store "start [] (page [])" "[]" "[]"]
    by (simp add: spec_effective_def ex_store_def ex_L1_def ex_C1_def blank_rule_def or_empty_def)
  have c: "spec_effective [] [\<lparr>tag_id = ''t1'', tag_enabled = False\<rparr>] ex_C1"
    using effectiveness_invariant
      [of ex_C1 ex_store "start [] (page [])" "[]" "[\<lparr>tag_id = ''t1'', tag_enabled = False\<rparr>]"]
    by (simp add: ex_C1_def blank_rule_def or_empty_def)
  show ?thesis using a b c by simp
qed

text \<open>
  C2. The effective list is the effective user rules followed by the effective
  community rules: the user rules fill the first positions and the community rules the
  rest. Each part is a subsequence of its stored collection, in the stored order;
  nothing is sorted.
\<close>

theorem priority_invariant:
  "rules (loadRules stored s) =
     filter (spec_effective (or_empty (disabledRuleIds stored)) (or_empty (stored_tags stored)))
       (or_empty (userRules stored)) @
     filter (spec_effective (or_empty (disabledRuleIds stored)) (or_empty (stored_tags stored)))
       (or_empty (communityRules stored)) \<and>
   getMergedRules stored =
     filter (spec_effective (or_empty (disabledRuleIds stored)) (or_empty (stored_tags stored)))
       (or_empty (userRules stored)) @
     filter (spec_effective (or_empty (disabledRuleIds stored)) (or_empty (stored_tags stored)))
       (or_empty (communityRules stored)) \<and>
   take (length (filter (spec_effective (or_empty (disabledRuleIds stored))
                    (or_empty (stored_tags stored))) (or_empty (userRules stored))))
     (rules (loadRules stored s)) =
     filter (spec_effective (or_empty (disabledRuleIds stored)) (or_empty (stored_tags stored)))
       (or_empty (userRules stored)) \<and>
   drop (length (filter (spec_effective (or_empty (disabledRuleIds stored))
                    (or_empty (stored_tags stored))) (or_empty (userRules stored))))
     (rules (loadRules stored s)) =
     filter (spec_effective (or_empty (disabledRuleIds stored)) (or_empty (stored_tags stored)))
       (or_empty (communityRules stored)) \<and>
   subseq
     (filter (spec_effective (or_empty (disabledRuleIds stored)) (or_empty (stored_tags stored)))
       (or_empty (userRules stored)))
     (or_empty (userRules stored)) \<and>
   subseq
     (filter (spec_effective (or_empty (disabledRuleIds stored)) (or_empty (stored_tags stored)))
       (or_empty (communityRules stored)))
     (or_empty (communityRules stored))"
  by (simp add: rules_loadRules getMergedRules_eq)

theorem priority_invariant_witness:
  "rules (loadRules (ex_store\<lparr>userRules := Some [ex_C1, ex_L1, blank_rule]\<rparr>) (start [] (page [])))
     = [ex_C1, blank_rule, ex_C1]"
  using priority_invariant
    [of "ex_store\<lparr>userRules := Some [ex_C1, ex_L1, blank_rule]\<rparr>" "start [] (page [])"]
  by (simp add: spec_effective_def ex_store_def ex_L1_def ex_C1_def blank_rule_def or_empty_def)

text \<open>
  C9. The resolver of the background script and the resolver of the content script
  give the same list, in the same order, on the same stored values.
\<close>

theorem resolvers_agree: "rules (loadRules stored s) = getMergedRules stored"
  by (simp add: loadRules_def getMergedRules_def Let_def isRuleEnabled_def [abs_def]
      bg_isRuleEnabled_def [abs_def] disabledTagIds_of_def bg_disabledTagIds_def)

theorem resolvers_agree_witness:
  "rules (loadRules ex_store (start [] (page []))) = [ex_C1] \<and> getMergedRules ex_store = [ex_C1]"
proof -
  have "getMergedRules ex_store = [ex_C1]"
    by (simp add: getMergedRules_eq spec_effective_def ex_store_def ex_L1_def ex_C1_def
        blank_rule_def or_empty_def)
  then show ?thesis
    using resolvers_agree [of ex_store "start [] (page [])"] by simp
qed

section \<open>Marks are permanent\<close>


lemma hasProcessed_Text [simp]: "hasProcessed (Text l s) q = False"
  by (cases q) (simp_all add: hasProcessed_def elem_at_def)

lemma hasProcessed_Nil [simp]: "hasProcessed (Element l e cs) [] = processed e"
  by (simp add: hasProcessed_def elem_at_def)

lemma hasProcessed_Cons [simp]:
  "hasProcessed (Element l e cs) (j # q) = (j < length cs \<and> hasProcessed (cs ! j) q)"
  by (simp add: hasProcessed_def elem_at_def)

lemma is_element_at_Nil [simp]: "is_element_at n [] = is_element n"
  by (simp add: is_element_at_def)

lemma is_element_at_Text [simp]: "is_element_at (Text l s) (j # q) = False"
  by (simp add: is_element_at_def)

lemma is_element_at_Cons [simp]:
  "is_element_at (Element l e cs) (j # q) = (j < length cs \<and> is_element_at (cs ! j) q)"
  by (simp add: is_element_at_def)

lemma keeps_marks_unlink: "keeps_marks unlink"
  unfolding keeps_marks_def
proof (intro allI)
  fix n q
  show "(hasProcessed n q \<longrightarrow> hasProcessed (unlink n) q) \<and>
        (is_element_at n q \<longrightarrow> is_element_at (unlink n) q)"
    by (cases n; cases q) simp_all
qed

lemma keeps_marks_mark_node: "keeps_marks mark_node"
  unfolding keeps_marks_def
proof (intro allI)
  fix n q
  show "(hasProcessed n q \<longrightarrow> hasProcessed (mark_node n) q) \<and>
        (is_element_at n q \<longrightarrow> is_element_at (mark_node n) q)"
    by (cases n; cases q) simp_all
qed

lemma keeps_marks_hide_node: "keeps_marks hide_node"
  unfolding keeps_marks_def
proof (intro allI)
  fix n q
  show "(hasProcessed n q \<longrightarrow> hasProcessed (hide_node n) q) \<and>
        (is_element_at n q \<longrightarrow> is_element_at (hide_node n) q)"
    by (cases n; cases q) simp_all
qed

lemma unlink_keeps:
  "hasProcessed n q \<Longrightarrow> hasProcessed (unlink n) q"
  "is_element_at n q \<Longrightarrow> is_element_at (unlink n) q"
  using keeps_marks_unlink unfolding keeps_marks_def by blast+

lemma keeps_marks_set_innerHTML: "keeps_marks (set_innerHTML pf html)"
  unfolding keeps_marks_def
proof (intro allI)
  fix n q
  show "(hasProcessed n q \<longrightarrow> hasProcessed (set_innerHTML pf html n) q) \<and>
        (is_element_at n q \<longrightarrow> is_element_at (set_innerHTML pf html n) q)"
    by (cases n; cases q) (auto simp: nth_append unlink_keeps)
qed

lemma keeps_marks_set_text: "keeps_marks (set_text t)"
  unfolding keeps_marks_def
proof (intro allI)
  fix n q
  show "(hasProcessed n q \<longrightarrow> hasProcessed (set_text t n) q) \<and>
        (is_element_at n q \<longrightarrow> is_element_at (set_text t n) q)"
    by (cases n; cases q) (auto simp: nth_append unlink_keeps)
qed

lemma update_at_keeps:
  assumes f: "keeps_marks f"
  shows "(hasProcessed d q \<longrightarrow> hasProcessed (update_at p f d) q) \<and>
         (is_element_at d q \<longrightarrow> is_element_at (update_at p f d) q)"
proof (induction p arbitrary: d q)
  case Nil
  then show ?case using f by (simp add: keeps_marks_def)
next
  case (Cons i p)
  show ?case
  proof (cases d)
    case (Text l s)
    then show ?thesis by simp
  next
    case (Element l e cs)
    show ?thesis
    proof (cases q)
      case Nil
      with Element show ?thesis by simp
    next
      case (Cons j q')
      with Element Cons.IH [of "cs ! i" q'] show ?thesis
        by (auto simp: nth_list_update)
    qed
  qed
qed

text \<open>No write clears a mark or turns an element into something else.\<close>

lemma exec_keeps:
  "(hasProcessed (document s) q \<longrightarrow> hasProcessed (document (exec pf e s)) q) \<and>
   (is_element_at (document s) q \<longrightarrow> is_element_at (document (exec pf e s)) q)"
  by (cases e)
    (simp_all add: update_at_keeps keeps_marks_unlink keeps_marks_mark_node
      keeps_marks_hide_node keeps_marks_set_innerHTML keeps_marks_set_text)

lemma grows_refl [simp]: "grows s s"
  by (simp add: grows_def)

lemma grows_trans: "grows s t \<Longrightarrow> grows t u \<Longrightarrow> grows s u"
  by (simp add: grows_def)

lemma grows_exec: "grows s (exec pf e s)"
  using exec_keeps by (simp add: grows_def)

lemma grows_run: "grows s (run pf effs s)"
  unfolding run_def
proof (induction effs arbitrary: s)
  case Nil
  then show ?case by simp
next
  case (Cons e effs)
  have "grows s (exec pf e s)" by (rule grows_exec)
  moreover have "grows (exec pf e s) (foldl (\<lambda>t e. exec pf e t) (exec pf e s) effs)"
    by (rule Cons.IH)
  ultimately show ?case by (auto intro: grows_trans)
qed

lemma grows_foldl:
  assumes "\<And>t x. grows t (f t x)"
  shows "grows s (foldl f s xs)"
proof (induction xs arbitrary: s)
  case Nil
  then show ?case by simp
next
  case (Cons x xs)
  have "grows s (f s x)" by (rule assms)
  moreover have "grows (f s x) (foldl f (f s x) xs)" by (rule Cons.IH)
  ultimately show ?case by (auto intro: grows_trans)
qed

lemma grows_applyRuleToElement: "grows s (applyRuleToElement pf el r s)"
  by (simp add: applyRuleToElement_def grows_run)

lemma grows_applyRuleToTextNode: "grows s (applyRuleToTextNode pf nd r s)"
  by (simp add: applyRuleToTextNode_def grows_run)

lemma grows_applyRuleToMatchingElements:
  "applyRuleToMatchingElements pf r s = Inr t \<Longrightarrow> grows s t"
  by (auto simp: applyRuleToMatchingElements_def grows_applyRuleToElement
      split: option.splits intro!: grows_foldl)

lemma grows_replaceMatchingText:
  "replaceMatchingText pf r s = Inr t \<Longrightarrow> grows s t"
  by (auto simp: replaceMatchingText_def Let_def grows_applyRuleToTextNode
      split: option.splits intro!: grows_foldl)

lemma grows_applyRuleByContent:
  "applyRuleByContent pf r s = Inr t \<Longrightarrow> grows s t"
  by (auto simp: applyRuleByContent_def grows_applyRuleToMatchingElements grows_replaceMatchingText
      split: if_splits)

lemma grows_apply_selector: "grows s (apply_selector pf r sel s)"
  by (auto simp: apply_selector_def grows_applyRuleToElement split: sum.splits intro!: grows_foldl)

lemma grows_applyRuleToPage:
  "applyRuleToPage pf r s = Inr t \<Longrightarrow> grows s t"
  by (auto simp: applyRuleToPage_def Let_def grows_apply_selector
      split: if_splits option.splits
      dest!: grows_applyRuleByContent intro: grows_trans [OF grows_apply_selector])

lemma grows_for_each:
  assumes "\<And>x s t. f x s = Inr t \<Longrightarrow> grows s t"
  shows "for_each f xs s = Inr t \<Longrightarrow> grows s t"
proof (induction xs arbitrary: s)
  case Nil
  then show ?case by simp
next
  case (Cons x xs)
  then show ?case
    by (auto split: sum.splits dest!: assms intro: grows_trans)
qed

lemma grows_applyAll: "applyAll pf s = Inr t \<Longrightarrow> grows s t"
proof -
  assume a: "applyAll pf s = Inr t"
  have g0: "grows s (s\<lparr>appliedCount := 0\<rparr>)" by (simp add: grows_def)
  show ?thesis
  proof (cases "enabled s")
    case False
    with a show ?thesis by (simp add: applyAll_def)
  next
    case True
    with a have "t = s\<lparr>appliedCount := 0\<rparr> \<or>
      for_each (applyRuleToPage pf) (applicableRules (location_hostname pf) (rules s))
        (s\<lparr>appliedCount := 0\<rparr>) = Inr t"
      by (auto simp: applyAll_def Let_def split: if_splits)
    then show ?thesis
      using g0 grows_for_each [of "applyRuleToPage pf", OF grows_applyRuleToPage]
      by (auto intro: grows_trans)
  qed
qed


lemma node_at_update_at_same:
  "node_at (update_at p f d) p = map_option f (node_at d p)"
proof (induction p arbitrary: d)
  case Nil
  then show ?case by simp
next
  case (Cons i p)
  then show ?case by (cases d) simp_all
qed

lemma hasProcessed_after_mark:
  "is_element_at d el \<Longrightarrow> hasProcessed (update_at el mark_node d) el"
proof -
  assume "is_element_at d el"
  then obtain l e cs where n: "node_at d el = Some (Element l e cs)"
    by (auto simp: is_element_at_def split: option.splits elim: is_element.elims)
  show ?thesis
    by (simp add: hasProcessed_def elem_at_def node_at_update_at_same n)
qed

lemma processed_applyRuleToElement_noop:
  "hasProcessed (document s) el \<Longrightarrow> applyRuleToElement pf el r s = s"
  by (simp add: applyRuleToElement_def applyRuleToElement_writes_def run_def)

lemma processed_parent_applyRuleToTextNode_noop:
  "parentElement (document s) nd = Some parent \<Longrightarrow> hasProcessed (document s) parent \<Longrightarrow>
     applyRuleToTextNode pf nd r s = s"
  by (simp add: applyRuleToTextNode_def applyRuleToTextNode_writes_def run_def)

lemma processed_not_qualifies: "hasProcessed d el \<Longrightarrow> \<not> qualifies pf pat d el"
  by (simp add: qualifies_def)

lemma applyAll_reset:
  "enabled s \<Longrightarrow> applyAll pf (s\<lparr>appliedCount := n\<rparr>) = applyAll pf (s\<lparr>appliedCount := 0\<rparr>)"
  by (simp add: applyAll_def)

lemma applyAll_keeps_marks:
  "hasProcessed (document s) el \<Longrightarrow> applyAll pf s = Inr t \<Longrightarrow> hasProcessed (document t) el"
  using grows_applyAll [of pf s t] by (simp add: grows_def)


section \<open>The loop over the rules\<close>

lemma for_each_append:
  "for_each f (xs @ ys) s = and_then (for_each f xs s) (for_each f ys)"
  by (induction xs arbitrary: s) (auto simp: and_then_def split: sum.splits)

lemma for_each_skip:
  assumes "\<And>t. f x t = Inr t"
  shows "for_each f (xs @ x # ys) s = for_each f (xs @ ys) s"
  by (simp add: for_each_append assms and_then_def split: sum.splits)

lemma exec_rules: "exec pf e (s\<lparr>rules := R\<rparr>) = (exec pf e s)\<lparr>rules := R\<rparr>"
  by (cases e) simp_all

lemma run_rules: "run pf effs (s\<lparr>rules := R\<rparr>) = (run pf effs s)\<lparr>rules := R\<rparr>"
  unfolding run_def by (induction effs arbitrary: s) (simp_all add: exec_rules)

lemma applyRuleToElement_rules:
  "applyRuleToElement pf el r (s\<lparr>rules := R\<rparr>) = (applyRuleToElement pf el r s)\<lparr>rules := R\<rparr>"
  by (simp add: applyRuleToElement_def applyRuleToElement_writes_def run_rules)

lemma applyRuleToTextNode_writes_rules:
  "applyRuleToTextNode_writes pf nd r (s\<lparr>rules := R\<rparr>) = applyRuleToTextNode_writes pf nd r s"
  by (simp add: applyRuleToTextNode_writes_def split: option.splits)

lemma applyRuleToTextNode_rules:
  "applyRuleToTextNode pf nd r (s\<lparr>rules := R\<rparr>) = (applyRuleToTextNode pf nd r s)\<lparr>rules := R\<rparr>"
  by (simp add: applyRuleToTextNode_def applyRuleToTextNode_writes_rules run_rules)

lemma foldl_rules:
  assumes "\<And>t x. f (t\<lparr>rules := R\<rparr>) x = (f t x)\<lparr>rules := R\<rparr>"
  shows "foldl f (s\<lparr>rules := R\<rparr>) xs = (foldl f s xs)\<lparr>rules := R\<rparr>"
  by (induction xs arbitrary: s) (simp_all add: assms)

lemma applyRuleToMatchingElements_rules:
  "applyRuleToMatchingElements pf r (s\<lparr>rules := R\<rparr>) =
     with_rules R (applyRuleToMatchingElements pf r s)"
  by (simp add: applyRuleToMatchingElements_def with_rules_def foldl_rules
      applyRuleToElement_rules split: option.splits)

lemma replaceMatchingText_rules:
  "replaceMatchingText pf r (s\<lparr>rules := R\<rparr>) = with_rules R (replaceMatchingText pf r s)"
  by (simp add: replaceMatchingText_def with_rules_def Let_def foldl_rules
      applyRuleToTextNode_rules split: option.splits)

lemma applyRuleByContent_rules:
  "applyRuleByContent pf r (s\<lparr>rules := R\<rparr>) = with_rules R (applyRuleByContent pf r s)"
  by (simp add: applyRuleByContent_def applyRuleToMatchingElements_rules
      replaceMatchingText_rules) (simp add: with_rules_def)

lemma apply_selector_rules:
  "apply_selector pf r sel (s\<lparr>rules := R\<rparr>) = (apply_selector pf r sel s)\<lparr>rules := R\<rparr>"
  by (simp add: apply_selector_def foldl_rules applyRuleToElement_rules split: sum.splits)

lemma applyRuleToPage_rules:
  "applyRuleToPage pf r (s\<lparr>rules := R\<rparr>) = with_rules R (applyRuleToPage pf r s)"
proof -
  have sel: "(case selector r of None \<Rightarrow> s\<lparr>rules := R\<rparr>
              | Some sel \<Rightarrow> if sel = [] then s\<lparr>rules := R\<rparr>
                           else apply_selector pf r sel (s\<lparr>rules := R\<rparr>)) =
             (case selector r of None \<Rightarrow> s
              | Some sel \<Rightarrow> if sel = [] then s else apply_selector pf r sel s)\<lparr>rules := R\<rparr>"
    by (simp add: apply_selector_rules split: option.splits)
  show ?thesis
    unfolding applyRuleToPage_def Let_def sel
    by (simp add: applyRuleByContent_rules) (simp add: with_rules_def)
qed

lemma for_each_rules:
  "for_each (applyRuleToPage pf) rs (s\<lparr>rules := R\<rparr>) =
     with_rules R (for_each (applyRuleToPage pf) rs s)"
proof (induction rs arbitrary: s)
  case Nil
  then show ?case by (simp add: with_rules_def)
next
  case (Cons r rs)
  then show ?case
    by (cases "applyRuleToPage pf r s") (simp_all add: applyRuleToPage_rules with_rules_def)
qed

lemma page_of_with_rules [simp]: "page_of (with_rules R res) = page_of res"
  by (simp add: page_of_def with_rules_def split: sum.splits)

lemma count_of_with_rules [simp]: "count_of (with_rules R res) = count_of res"
  by (simp add: count_of_def with_rules_def split: sum.splits)


lemma applyAll_without:
  assumes skip: "rule_applies (location_hostname pf) r \<Longrightarrow> (\<forall>t. applyRuleToPage pf r t = Inr t)"
  shows "with_rules [] (applyAll pf (s\<lparr>rules := xs @ r # ys\<rparr>)) =
         with_rules [] (applyAll pf (s\<lparr>rules := xs @ ys\<rparr>))"
proof (cases "enabled s")
  case False
  then show ?thesis by (simp add: applyAll_def with_rules_def)
next
  case True
  let ?h = "location_hostname pf"
  let ?s0 = "s\<lparr>appliedCount := 0\<rparr>"
  have a0: "applyAll pf u =
      for_each (applyRuleToPage pf) (applicableRules ?h (rules u)) (u\<lparr>appliedCount := 0\<rparr>)"
    if "enabled u" for u
    using that
    by (cases "applicableRules ?h (rules u)") (simp_all add: applyAll_def Let_def)
  have upd: "(s\<lparr>rules := Q\<rparr>)\<lparr>appliedCount := 0\<rparr> = ?s0\<lparr>rules := Q\<rparr>" for Q
    by simp
  have a: "applyAll pf (s\<lparr>rules := Q\<rparr>) =
      with_rules Q (for_each (applyRuleToPage pf) (applicableRules ?h Q) ?s0)" for Q
    using a0 [of "s\<lparr>rules := Q\<rparr>"] True unfolding upd by (simp add: for_each_rules)
  have b: "with_rules [] (with_rules Q res) = with_rules [] res" for Q res
    by (simp add: with_rules_def split: sum.splits)
  have c: "for_each (applyRuleToPage pf) (applicableRules ?h (xs @ r # ys)) ?s0 =
           for_each (applyRuleToPage pf) (applicableRules ?h (xs @ ys)) ?s0"
  proof (cases "rule_applies ?h r")
    case False
    then show ?thesis by (simp add: applicableRules_def)
  next
    case True
    then have "\<And>t. applyRuleToPage pf r t = Inr t" using skip by simp
    then have "for_each (applyRuleToPage pf)
                 (applicableRules ?h xs @ r # applicableRules ?h ys) ?s0 =
               for_each (applyRuleToPage pf) (applicableRules ?h xs @ applicableRules ?h ys) ?s0"
      by (rule for_each_skip)
    then show ?thesis using True by (simp add: applicableRules_def)
  qed
  show ?thesis by (simp add: a b c)
qed

lemma with_rules_same:
  assumes "with_rules [] res = with_rules [] res'"
  shows "page_of res = page_of res'" and "count_of res = count_of res'"
proof -
  have "page_of (with_rules [] res) = page_of (with_rules [] res')" using assms by simp
  then show "page_of res = page_of res'" by simp
  have "count_of (with_rules [] res) = count_of (with_rules [] res')" using assms by simp
  then show "count_of res = count_of res'" by simp
qed

section \<open>The host name filter of applyAll\<close>

lemma includes_str_sublist: "includes_str s sub = sublist sub s"
  by (induction s) (auto simp: sublist_Cons_right)

lemma includes_str_iff: "includes_str s sub \<longleftrightarrow> (\<exists>a b. s = a @ sub @ b)"
  by (simp add: includes_str_sublist sublist_def)

lemma rule_applies_iff:
  "rule_applies host r \<longleftrightarrow>
     (case hostname r of None \<Rightarrow> True | Some h \<Rightarrow> h = ''*'' \<or> (\<exists>a b. host = a @ h @ b))"
proof (cases "hostname r")
  case None
  then show ?thesis by (simp add: rule_applies_def truthy_def)
next
  case (Some h)
  show ?thesis
  proof (cases "h = []")
    case True
    have "host = [] @ [] @ host" by simp
    then have "\<exists>a b. host = a @ [] @ b" by blast
    with Some True show ?thesis by (simp add: rule_applies_def truthy_def)
  next
    case False
    with Some show ?thesis
      by (simp add: rule_applies_def truthy_def includes_str_iff)
  qed
qed

lemma applyAll_enabled:
  "enabled s \<Longrightarrow>
     applyAll pf s =
       for_each (applyRuleToPage pf) (applicableRules (location_hostname pf) (rules s))
         (s\<lparr>appliedCount := 0\<rparr>)"
  by (cases "applicableRules (location_hostname pf) (rules s)") (simp_all add: applyAll_def Let_def)

lemma applicableRules_split:
  "applicableRules host (xs @ r # ys) =
     (if rule_applies host r then applicableRules host xs @ r # applicableRules host ys
      else applicableRules host (xs @ ys))"
  by (simp add: applicableRules_def)

text \<open>
  C8. applyAll leaves a rule out of the rules it applies if and only if the rule's
  \<open>hostname\<close> is set, is not \<open>*\<close>, and does not occur in the page's host name as a
  substring, compared character by character; a rule whose \<open>hostname\<close> is absent or
  \<open>*\<close> passes on every host. applyAll, when it is switched on, applies to the page
  exactly the rules that pass, in their order, starting from the count 0: a rule that
  passes is applied in its place, after the rules before it and before the rules after
  it, and a rule that does not pass is skipped entirely, the page and the count being
  what they are without it. Switched off, applyAll does nothing.
\<close>

theorem hostname_gate:
  "(\<not> rule_applies host r \<longleftrightarrow>
      (\<exists>h. hostname r = Some h \<and> h \<noteq> ''*'' \<and> \<not> (\<exists>a b. host = a @ h @ b))) \<and>
   (hostname r = None \<or> hostname r = Some ''*'' \<longrightarrow> rule_applies anyhost r) \<and>
   (r \<in> set (applicableRules host rs) \<longleftrightarrow> r \<in> set rs \<and> rule_applies host r) \<and>
   (enabled s \<longrightarrow>
      applyAll pf s =
        for_each (applyRuleToPage pf) (applicableRules (location_hostname pf) (rules s))
          (s\<lparr>appliedCount := 0\<rparr>)) \<and>
   (\<not> enabled s \<longrightarrow> applyAll pf s = Inr s) \<and>
   (enabled s \<and> rule_applies (location_hostname pf) r \<longrightarrow>
      applyAll pf (s\<lparr>rules := xs @ r # ys\<rparr>) =
        and_then
          (and_then
             (for_each (applyRuleToPage pf) (applicableRules (location_hostname pf) xs)
                (s\<lparr>rules := xs @ r # ys, appliedCount := 0\<rparr>))
             (applyRuleToPage pf r))
          (for_each (applyRuleToPage pf) (applicableRules (location_hostname pf) ys))) \<and>
   (\<not> rule_applies (location_hostname pf) r \<longrightarrow>
      page_of (applyAll pf (s\<lparr>rules := xs @ r # ys\<rparr>)) =
        page_of (applyAll pf (s\<lparr>rules := xs @ ys\<rparr>)) \<and>
      count_of (applyAll pf (s\<lparr>rules := xs @ r # ys\<rparr>)) =
        count_of (applyAll pf (s\<lparr>rules := xs @ ys\<rparr>)))"
proof (intro conjI impI)
  show "\<not> rule_applies host r \<longleftrightarrow>
      (\<exists>h. hostname r = Some h \<and> h \<noteq> ''*'' \<and> \<not> (\<exists>a b. host = a @ h @ b))"
    by (auto simp: rule_applies_iff split: option.splits)
  show "r \<in> set (applicableRules host rs) \<longleftrightarrow> r \<in> set rs \<and> rule_applies host r"
    by (simp add: applicableRules_def)
next
  assume "hostname r = None \<or> hostname r = Some ''*''"
  then show "rule_applies anyhost r" by (auto simp: rule_applies_iff)
next
  assume "enabled s"
  then show "applyAll pf s =
        for_each (applyRuleToPage pf) (applicableRules (location_hostname pf) (rules s))
          (s\<lparr>appliedCount := 0\<rparr>)"
    by (rule applyAll_enabled)
next
  assume "\<not> enabled s"
  then show "applyAll pf s = Inr s" by (simp add: applyAll_def)
next
  assume a: "enabled s \<and> rule_applies (location_hostname pf) r"
  let ?h = "location_hostname pf"
  let ?u = "s\<lparr>rules := xs @ r # ys\<rparr>"
  have "applyAll pf ?u =
      for_each (applyRuleToPage pf) (applicableRules ?h xs @ [r] @ applicableRules ?h ys)
        (?u\<lparr>appliedCount := 0\<rparr>)"
    using a applyAll_enabled [of ?u pf] by (simp add: applicableRules_split)
  also have "\<dots> =
      and_then
        (and_then (for_each (applyRuleToPage pf) (applicableRules ?h xs) (?u\<lparr>appliedCount := 0\<rparr>))
           (for_each (applyRuleToPage pf) [r]))
        (for_each (applyRuleToPage pf) (applicableRules ?h ys))"
    by (simp only: for_each_append append_assoc [symmetric])
  also have "for_each (applyRuleToPage pf) [r] = applyRuleToPage pf r"
    by (rule ext) (simp split: sum.splits)
  finally show "applyAll pf ?u =
        and_then
          (and_then
             (for_each (applyRuleToPage pf) (applicableRules ?h xs)
                (s\<lparr>rules := xs @ r # ys, appliedCount := 0\<rparr>))
             (applyRuleToPage pf r))
          (for_each (applyRuleToPage pf) (applicableRules ?h ys))"
    by simp
next
  assume a: "\<not> rule_applies (location_hostname pf) r"
  have w: "with_rules [] (applyAll pf (s\<lparr>rules := xs @ r # ys\<rparr>)) =
           with_rules [] (applyAll pf (s\<lparr>rules := xs @ ys\<rparr>))"
    by (rule applyAll_without) (simp add: a)
  show "page_of (applyAll pf (s\<lparr>rules := xs @ r # ys\<rparr>)) =
        page_of (applyAll pf (s\<lparr>rules := xs @ ys\<rparr>))"
    using w by (rule with_rules_same)
  show "count_of (applyAll pf (s\<lparr>rules := xs @ r # ys\<rparr>)) =
        count_of (applyAll pf (s\<lparr>rules := xs @ ys\<rparr>))"
    using w by (rule with_rules_same)
qed

theorem hostname_gate_witness:
  "location_hostname demo = ''news.example.com'' \<and>
   rule_applies ''news.example.com'' ex_hosted_hide \<and>
   \<not> rule_applies ''news.example.com'' ex_capital_hide \<and>
   rule_applies ''news.example.com'' blank_rule \<and>
   ex_capital_hide \<notin> set (applicableRules ''news.example.com'' [ex_capital_hide, blank_rule]) \<and>
   enabled (start [] ex_page) \<and>
   applyAll demo ((start [] ex_page)\<lparr>rules := [] @ ex_hosted_hide # []\<rparr>) =
     applyRuleToPage demo ex_hosted_hide
       ((start [] ex_page)\<lparr>rules := [] @ ex_hosted_hide # [], appliedCount := 0\<rparr>) \<and>
   count_of (applyAll demo ((start [] ex_page)\<lparr>rules := [] @ ex_hosted_hide # []\<rparr>)) = Some 2 \<and>
   count_of (applyAll demo ((start [] ex_page)\<lparr>rules := [] @ ex_capital_hide # []\<rparr>)) = Some 0"
proof -
  let ?s = "start [] ex_page"
  have h: "location_hostname demo = ''news.example.com''" by (simp add: demo_def)
  have a: "rule_applies ''news.example.com'' ex_hosted_hide"
    by (simp add: rule_applies_def truthy_def ex_hosted_hide_def ex_hosted_def blank_rule_def)
  have b: "\<not> rule_applies ''news.example.com'' ex_capital_hide"
    by (simp add: rule_applies_def truthy_def ex_capital_hide_def ex_hosted_def blank_rule_def)
  have c: "rule_applies ''news.example.com'' blank_rule"
    using hostname_gate [where r = blank_rule and anyhost = "''news.example.com''"]
    by (simp add: blank_rule_def)
  have d: "ex_capital_hide \<notin> set (applicableRules ''news.example.com'' [ex_capital_hide, blank_rule])"
    using b hostname_gate
      [where r = ex_capital_hide and host = "''news.example.com''"
         and rs = "[ex_capital_hide, blank_rule]"]
    by simp
  have en: "enabled ?s" by (simp add: start_def)
  have e: "applyAll demo (?s\<lparr>rules := [] @ ex_hosted_hide # []\<rparr>) =
      applyRuleToPage demo ex_hosted_hide
        (?s\<lparr>rules := [] @ ex_hosted_hide # [], appliedCount := 0\<rparr>)"
    using en a h hostname_gate
      [where r = ex_hosted_hide and pf = demo and s = ?s and xs = "[]" and ys = "[]"]
    by (simp add: applicableRules_def and_then_def split: sum.splits)
  have f: "count_of (applyRuleToPage demo ex_hosted_hide
        (?s\<lparr>rules := [] @ ex_hosted_hide # [], appliedCount := 0\<rparr>)) = Some 2"
    by code_simp
  have g: "count_of (applyAll demo (?s\<lparr>rules := [] @ []\<rparr>)) = Some 0"
    by (simp add: applyAll_def Let_def applicableRules_def start_def count_of_def)
  have i: "count_of (applyAll demo (?s\<lparr>rules := [] @ ex_capital_hide # []\<rparr>)) = Some 0"
    using b g h hostname_gate
      [where r = ex_capital_hide and pf = demo and s = ?s and xs = "[]" and ys = "[]"]
    by simp
  show ?thesis using h a b c d en e f i by simp
qed

section \<open>The order of marking and mutating\<close>

lemma run_throwing_keeps_marks:
  "hasProcessed (document s) q \<Longrightarrow> hasProcessed (document (fst (run_throwing throws pf effs s))) q"
proof (induction effs arbitrary: s)
  case Nil
  then show ?case by simp
next
  case (Cons e effs)
  then show ?case using exec_keeps [of s q pf e] by simp
qed

lemma applyRuleToElement_writes_eq:
  "applyRuleToElement_writes r el s =
     (if hasProcessed (document s) el then []
      else SetProcessed el # IncApplied # element_mutation r el)"
  by (simp add: applyRuleToElement_writes_def element_mutation_def split: option.splits)

lemma element_mutation_is_mutation:
  "list_all is_mutation (element_mutation r el) \<and> length (element_mutation r el) \<le> 1"
  by (simp add: element_mutation_def split: option.splits)

lemma applyRuleToElement_writes_shape:
  "\<not> hasProcessed (document s) el \<Longrightarrow>
     \<exists>ms. applyRuleToElement_writes r el s = SetProcessed el # IncApplied # ms \<and>
          list_all is_mutation ms"
  using element_mutation_is_mutation [of r el] by (simp add: applyRuleToElement_writes_eq)

lemma applyRuleToTextNode_writes_eq:
  "applyRuleToTextNode_writes pf nd r s =
     (case parentElement (document s) nd of
        None \<Rightarrow> []
      | Some parent \<Rightarrow>
          if \<not> hasProcessed (document s) parent \<and> RegExp_valid pf (pattern_source r) \<and>
             (action r = ''remove'' \<or> action r = ''replace'') \<and>
             rewritten pf r (textContent_at (document s) nd) \<noteq> textContent_at (document s) nd
          then [SetTextContent nd (rewritten pf r (textContent_at (document s) nd)),
                SetProcessed parent, IncApplied]
          else [])"
  by (simp add: applyRuleToTextNode_writes_def rewritten_def Let_def split: option.splits)

lemma applyRuleToTextNode_writes_shape:
  "applyRuleToTextNode_writes pf nd r s \<noteq> [] \<Longrightarrow>
     \<exists>new parent. parentElement (document s) nd = Some parent \<and>
       \<not> hasProcessed (document s) parent \<and>
       applyRuleToTextNode_writes pf nd r s =
         [SetTextContent nd new, SetProcessed parent, IncApplied]"
  by (auto simp: applyRuleToTextNode_writes_eq split: option.splits if_splits)

lemma run_throwing_never: "run_throwing (\<lambda>e. False) pf effs s = (run pf effs s, False)"
  unfolding run_def by (induction effs arbitrary: s) simp_all

text \<open>
  C6, as the code has it. On an unprocessed element applyRuleToElement sets the mark,
  counts, and then applies the mutation of the rule's action; on a processed one it
  writes nothing. So if the mutation throws, the element is marked. applyRuleToTextNode
  writes only when the parent is unprocessed, the pattern is well-formed, the action is
  \<open>remove\<close> or \<open>replace\<close> and the rewritten text differs from the text; then it
  assigns the rewritten text first, marks the parent element second and counts third.
  So if the assignment throws, nothing was marked, and when the text does not change
  nothing is marked or counted.
\<close>

theorem mark_and_mutation_order:
  "applyRuleToElement pf el r s = run pf (applyRuleToElement_writes r el s) s \<and>
   applyRuleToElement_writes r el s =
     (if hasProcessed (document s) el then []
      else SetProcessed el # IncApplied # element_mutation r el) \<and>
   list_all is_mutation (element_mutation r el) \<and>
   (is_element_at (document s) el \<and> (\<forall>e. throws e \<longrightarrow> is_mutation e) \<longrightarrow>
      hasProcessed
        (document (fst (run_throwing throws pf (applyRuleToElement_writes r el s) s))) el) \<and>
   applyRuleToTextNode pf nd r s = run pf (applyRuleToTextNode_writes pf nd r s) s \<and>
   applyRuleToTextNode_writes pf nd r s =
     (case parentElement (document s) nd of
        None \<Rightarrow> []
      | Some parent \<Rightarrow>
          if \<not> hasProcessed (document s) parent \<and> RegExp_valid pf (pattern_source r) \<and>
             (action r = ''remove'' \<or> action r = ''replace'') \<and>
             rewritten pf r (textContent_at (document s) nd) \<noteq> textContent_at (document s) nd
          then [SetTextContent nd (rewritten pf r (textContent_at (document s) nd)),
                SetProcessed parent, IncApplied]
          else []) \<and>
   (applyRuleToTextNode_writes pf nd r s \<noteq> [] \<and> (\<forall>e. is_mutation e \<longrightarrow> throws e) \<longrightarrow>
      run_throwing throws pf (applyRuleToTextNode_writes pf nd r s) s = (s, True)) \<and>
   run_throwing (\<lambda>e. False) pf effs s = (run pf effs s, False)"
proof (intro conjI impI)
  show "applyRuleToElement pf el r s = run pf (applyRuleToElement_writes r el s) s"
    by (simp add: applyRuleToElement_def)
  show "applyRuleToElement_writes r el s =
     (if hasProcessed (document s) el then []
      else SetProcessed el # IncApplied # element_mutation r el)"
    by (rule applyRuleToElement_writes_eq)
  show "list_all is_mutation (element_mutation r el)"
    using element_mutation_is_mutation by blast
  show "applyRuleToTextNode pf nd r s = run pf (applyRuleToTextNode_writes pf nd r s) s"
    by (simp add: applyRuleToTextNode_def)
  show "applyRuleToTextNode_writes pf nd r s =
     (case parentElement (document s) nd of
        None \<Rightarrow> []
      | Some parent \<Rightarrow>
          if \<not> hasProcessed (document s) parent \<and> RegExp_valid pf (pattern_source r) \<and>
             (action r = ''remove'' \<or> action r = ''replace'') \<and>
             rewritten pf r (textContent_at (document s) nd) \<noteq> textContent_at (document s) nd
          then [SetTextContent nd (rewritten pf r (textContent_at (document s) nd)),
                SetProcessed parent, IncApplied]
          else [])"
    by (rule applyRuleToTextNode_writes_eq)
  show "run_throwing (\<lambda>e. False) pf effs s = (run pf effs s, False)"
    by (rule run_throwing_never)
next
  assume a: "is_element_at (document s) el \<and> (\<forall>e. throws e \<longrightarrow> is_mutation e)"
  show "hasProcessed
          (document (fst (run_throwing throws pf (applyRuleToElement_writes r el s) s))) el"
  proof (cases "hasProcessed (document s) el")
    case True
    then show ?thesis by (rule run_throwing_keeps_marks)
  next
    case False
    then obtain ms where w: "applyRuleToElement_writes r el s = SetProcessed el # IncApplied # ms"
      using applyRuleToElement_writes_shape by blast
    have nt: "\<not> throws (SetProcessed el)" "\<not> throws IncApplied"
      using a by auto
    let ?s2 = "exec pf IncApplied (exec pf (SetProcessed el) s)"
    have "hasProcessed (document ?s2) el"
      using a by (simp add: hasProcessed_after_mark)
    then have "hasProcessed (document (fst (run_throwing throws pf ms ?s2))) el"
      by (rule run_throwing_keeps_marks)
    then show ?thesis using nt by (simp add: w)
  qed
next
  assume a: "applyRuleToTextNode_writes pf nd r s \<noteq> [] \<and> (\<forall>e. is_mutation e \<longrightarrow> throws e)"
  then obtain new parent where
    w: "applyRuleToTextNode_writes pf nd r s = [SetTextContent nd new, SetProcessed parent, IncApplied]"
    using applyRuleToTextNode_writes_shape by blast
  have "throws (SetTextContent nd new)" using a by simp
  then show "run_throwing throws pf (applyRuleToTextNode_writes pf nd r s) s = (s, True)"
    by (simp add: w)
qed

text \<open>
  C6, as stated, fails at text-run granularity: on a paragraph with the text \<open>x\<close>
  and the rule replacing \<open>x\<close> by \<open>y\<close>, the first write is the new text and the mark
  comes second, so a throw of the first write leaves the parent unmarked.
\<close>

theorem text_run_marks_after_mutation:
  "applyRuleToTextNode_writes demo [0, 0, 0] ex_replace (start [ex_replace] ex_par) =
     [SetTextContent [0, 0, 0] ''y'', SetProcessed [0, 0], IncApplied] \<and>
   snd (run_throwing is_mutation demo
          (applyRuleToTextNode_writes demo [0, 0, 0] ex_replace (start [ex_replace] ex_par))
          (start [ex_replace] ex_par)) = True \<and>
   \<not> hasProcessed (document (fst (run_throwing is_mutation demo
          (applyRuleToTextNode_writes demo [0, 0, 0] ex_replace (start [ex_replace] ex_par))
          (start [ex_replace] ex_par)))) [0, 0]"
  by code_simp

theorem mark_and_mutation_order_witness:
  "is_element_at (document (start [ex_replace] ex_par)) [0, 0] \<and>
   \<not> hasProcessed (document (start [ex_replace] ex_par)) [0, 0] \<and>
   hasProcessed
     (document (fst (run_throwing is_mutation demo
        (applyRuleToElement_writes ex_replace [0, 0] (start [ex_replace] ex_par))
        (start [ex_replace] ex_par)))) [0, 0] \<and>
   applyRuleToElement_writes ex_replace [0, 0] (start [ex_replace] ex_par) =
     [SetProcessed [0, 0], IncApplied, SetInnerHTML [0, 0] ''y''] \<and>
   applyRuleToTextNode_writes demo [0, 0, 0] ex_replace (start [ex_replace] ex_par) \<noteq> [] \<and>
   run_throwing is_mutation demo
     (applyRuleToTextNode_writes demo [0, 0, 0] ex_replace (start [ex_replace] ex_par))
     (start [ex_replace] ex_par) = (start [ex_replace] ex_par, True) \<and>
   applyRuleToTextNode_writes demo [0, 0, 0] (ex_replace\<lparr>replacement := Some ''x''\<rparr>)
     (start [ex_replace] ex_par) = []"
proof -
  let ?s = "start [ex_replace] ex_par"
  have a: "is_element_at (document ?s) [0, 0]" by code_simp
  have b: "\<not> hasProcessed (document ?s) [0, 0]" by code_simp
  have t: "\<forall>e. is_mutation e \<longrightarrow> is_mutation e" by simp
  note th = mark_and_mutation_order
    [where s = ?s and el = "[0, 0]" and r = ex_replace and throws = is_mutation and pf = demo
       and nd = "[0, 0, 0]"]
  note th2 = mark_and_mutation_order
    [where s = ?s and r = "ex_replace\<lparr>replacement := Some ''x''\<rparr>" and pf = demo
       and nd = "[0, 0, 0]"]
  have m: "element_mutation ex_replace [0, 0] = [SetInnerHTML [0, 0] ''y'']"
    by (simp add: element_mutation_def ex_replace_def blank_rule_def)
  have c: "applyRuleToElement_writes ex_replace [0, 0] ?s =
      [SetProcessed [0, 0], IncApplied, SetInnerHTML [0, 0] ''y'']"
    using th b m by simp
  have p: "parentElement (document ?s) [0, 0, 0] = Some [0, 0]" by code_simp
  have v: "RegExp_valid demo (pattern_source ex_replace)"
    "RegExp_valid demo (pattern_source (ex_replace\<lparr>replacement := Some ''x''\<rparr>))"
    by code_simp+
  have old: "textContent_at (document ?s) [0, 0, 0] = ''x''" by code_simp
  have rw: "rewritten demo ex_replace ''x'' = ''y''"
    "rewritten demo (ex_replace\<lparr>replacement := Some ''x''\<rparr>) ''x'' = ''x''"
    by code_simp+
  have act: "action ex_replace = ''replace''"
    by (simp add: ex_replace_def blank_rule_def)
  have d: "applyRuleToTextNode_writes demo [0, 0, 0] ex_replace ?s \<noteq> []"
    using th p b v old rw act by simp
  have e: "applyRuleToTextNode_writes demo [0, 0, 0] (ex_replace\<lparr>replacement := Some ''x''\<rparr>) ?s = []"
    using th2 p b v old rw act by simp
  show ?thesis using th a b c d e t by blast
qed

section \<open>A replace rule without a replacement\<close>

lemma processed_parent_not_accepted:
  "parentElement d nd = Some el \<Longrightarrow> hasProcessed d el \<Longrightarrow> \<not> acceptNode d nd"
  by (auto simp: acceptNode_def closest_processed.simps [of d el] split: option.splits)

text \<open>
  C10. Applied to an unprocessed element, a replace rule whose \<open>replacement\<close> is
  absent or empty changes nothing of the element but its mark, and counts one. From then
  on applyRuleToElement does nothing on the element, whatever the rule, the element
  never qualifies for a pattern again, the tree walker rejects its text nodes and
  applyRuleToTextNode does nothing on them, and no later applyAll clears the mark.
\<close>

theorem replace_without_replacement:
  "\<not> hasProcessed (document s) el \<and> is_element_at (document s) el \<and> action r = ''replace'' \<and>
   (replacement r = None \<or> replacement r = Some []) \<longrightarrow>
     applyRuleToElement pf el r s =
       s\<lparr>document := update_at el mark_node (document s), appliedCount := appliedCount s + 1\<rparr> \<and>
     node_at (document (applyRuleToElement pf el r s)) el =
       map_option mark_node (node_at (document s) el) \<and>
     textContent_at (document (applyRuleToElement pf el r s)) el = textContent_at (document s) el \<and>
     hasProcessed (document (applyRuleToElement pf el r s)) el \<and>
     applyRuleToElement pf el r' (applyRuleToElement pf el r s) = applyRuleToElement pf el r s \<and>
     \<not> qualifies pf pat (document (applyRuleToElement pf el r s)) el \<and>
     (parentElement (document (applyRuleToElement pf el r s)) nd = Some el \<longrightarrow>
        \<not> acceptNode (document (applyRuleToElement pf el r s)) nd \<and>
        applyRuleToTextNode pf nd r' (applyRuleToElement pf el r s) =
          applyRuleToElement pf el r s) \<and>
     (applyAll pf (applyRuleToElement pf el r s) = Inr t \<longrightarrow> hasProcessed (document t) el)"
proof (intro impI)
  assume a: "\<not> hasProcessed (document s) el \<and> is_element_at (document s) el \<and>
    action r = ''replace'' \<and> (replacement r = None \<or> replacement r = Some [])"
  define s' where "s' = applyRuleToElement pf el r s"
  have w: "applyRuleToElement_writes r el s = [SetProcessed el, IncApplied]"
    using a by (auto simp: applyRuleToElement_writes_def)
  have eq: "s' = s\<lparr>document := update_at el mark_node (document s),
                    appliedCount := appliedCount s + 1\<rparr>"
    by (simp add: s'_def applyRuleToElement_def w run_def)
  have doc: "document s' = update_at el mark_node (document s)"
    by (simp add: eq)
  have nd: "node_at (document s') el = map_option mark_node (node_at (document s) el)"
    by (simp add: doc node_at_update_at_same)
  have tc: "textContent_at (document s') el = textContent_at (document s) el"
  proof (cases "node_at (document s) el")
    case None
    then show ?thesis by (simp add: textContent_at_def nd)
  next
    case (Some n)
    then show ?thesis by (cases n) (simp_all add: textContent_at_def nd)
  qed
  have hp: "hasProcessed (document s') el"
    using a by (simp add: doc hasProcessed_after_mark)
  have again: "applyRuleToElement pf el r' s' = s'"
    using hp by (rule processed_applyRuleToElement_noop)
  have nq: "\<not> qualifies pf pat (document s') el"
    using hp by (rule processed_not_qualifies)
  have tnode: "parentElement (document s') nd = Some el \<longrightarrow>
      \<not> acceptNode (document s') nd \<and> applyRuleToTextNode pf nd r' s' = s'"
    using hp processed_parent_not_accepted processed_parent_applyRuleToTextNode_noop by blast
  have perm: "applyAll pf s' = Inr t \<longrightarrow> hasProcessed (document t) el"
    using hp applyAll_keeps_marks by blast
  have "s' = s\<lparr>document := update_at el mark_node (document s), appliedCount := appliedCount s + 1\<rparr> \<and>
     node_at (document s') el = map_option mark_node (node_at (document s) el) \<and>
     textContent_at (document s') el = textContent_at (document s) el \<and>
     hasProcessed (document s') el \<and>
     applyRuleToElement pf el r' s' = s' \<and>
     \<not> qualifies pf pat (document s') el \<and>
     (parentElement (document s') nd = Some el \<longrightarrow>
        \<not> acceptNode (document s') nd \<and> applyRuleToTextNode pf nd r' s' = s') \<and>
     (applyAll pf s' = Inr t \<longrightarrow> hasProcessed (document t) el)"
    using eq nd tc hp again nq tnode perm by blast
  then show "applyRuleToElement pf el r s =
       s\<lparr>document := update_at el mark_node (document s), appliedCount := appliedCount s + 1\<rparr> \<and>
     node_at (document (applyRuleToElement pf el r s)) el =
       map_option mark_node (node_at (document s) el) \<and>
     textContent_at (document (applyRuleToElement pf el r s)) el = textContent_at (document s) el \<and>
     hasProcessed (document (applyRuleToElement pf el r s)) el \<and>
     applyRuleToElement pf el r' (applyRuleToElement pf el r s) = applyRuleToElement pf el r s \<and>
     \<not> qualifies pf pat (document (applyRuleToElement pf el r s)) el \<and>
     (parentElement (document (applyRuleToElement pf el r s)) nd = Some el \<longrightarrow>
        \<not> acceptNode (document (applyRuleToElement pf el r s)) nd \<and>
        applyRuleToTextNode pf nd r' (applyRuleToElement pf el r s) =
          applyRuleToElement pf el r s) \<and>
     (applyAll pf (applyRuleToElement pf el r s) = Inr t \<longrightarrow> hasProcessed (document t) el)"
    unfolding s'_def .
qed

theorem replace_without_replacement_witness:
  "\<not> hasProcessed (document (start [ex_bare_replace] ex_par)) [0, 0] \<and>
   is_element_at (document (start [ex_bare_replace] ex_par)) [0, 0] \<and>
   action ex_bare_replace = ''replace'' \<and>
   replacement ex_bare_replace = None \<and>
   appliedCount (applyRuleToElement demo [0, 0] ex_bare_replace (start [ex_bare_replace] ex_par)) = 1 \<and>
   textContent_at
     (document (applyRuleToElement demo [0, 0] ex_bare_replace (start [ex_bare_replace] ex_par)))
     [0, 0] = ''x'' \<and>
   hasProcessed
     (document (applyRuleToElement demo [0, 0] ex_bare_replace (start [ex_bare_replace] ex_par)))
     [0, 0] \<and>
   applyRuleToElement demo [0, 0] ex_remove
       (applyRuleToElement demo [0, 0] ex_bare_replace (start [ex_bare_replace] ex_par)) =
     applyRuleToElement demo [0, 0] ex_bare_replace (start [ex_bare_replace] ex_par)"
proof -
  let ?s = "start [ex_bare_replace] ex_par"
  have a: "\<not> hasProcessed (document ?s) [0, 0]" by code_simp
  have b: "is_element_at (document ?s) [0, 0]" by code_simp
  have c: "action ex_bare_replace = ''replace''" "replacement ex_bare_replace = None"
    by (simp_all add: ex_bare_replace_def blank_rule_def)
  have d: "textContent_at (document ?s) [0, 0] = ''x''" by code_simp
  have e: "appliedCount ?s = 0" by (simp add: start_def)
  note th = replace_without_replacement
    [of ?s "[0, 0]" ex_bare_replace demo ex_remove "''x''" "[0, 0, 0]" ?s]
  from th a b c have
    "applyRuleToElement demo [0, 0] ex_bare_replace ?s =
       ?s\<lparr>document := update_at [0, 0] mark_node (document ?s), appliedCount := appliedCount ?s + 1\<rparr>"
    "textContent_at (document (applyRuleToElement demo [0, 0] ex_bare_replace ?s)) [0, 0] =
       textContent_at (document ?s) [0, 0]"
    "hasProcessed (document (applyRuleToElement demo [0, 0] ex_bare_replace ?s)) [0, 0]"
    "applyRuleToElement demo [0, 0] ex_remove (applyRuleToElement demo [0, 0] ex_bare_replace ?s) =
       applyRuleToElement demo [0, 0] ex_bare_replace ?s"
    by blast+
  then show ?thesis using a b c d e by simp
qed


section \<open>Malformed selectors and patterns\<close>

lemma invalid_selector_no_matches:
  "\<not> valid_selector pf sel \<Longrightarrow> apply_selector pf r sel s = s"
  by (simp add: apply_selector_def querySelectorAll_def)

lemma invalid_pattern_no_matches:
  "\<not> RegExp_valid pf (pattern_source r) \<Longrightarrow> applyRuleByContent pf r s = Inr s"
  by (simp add: applyRuleByContent_def)

lemma applyRuleToMatchingElements_error:
  "applyRuleToMatchingElements pf r s = Inl e \<Longrightarrow> e = TypeError"
  by (auto simp: applyRuleToMatchingElements_def split: option.splits)

lemma replaceMatchingText_error:
  "replaceMatchingText pf r s = Inl e \<Longrightarrow> e = TypeError"
  by (auto simp: replaceMatchingText_def Let_def split: option.splits)

lemma applyRuleByContent_error:
  "applyRuleByContent pf r s = Inl e \<Longrightarrow> e = TypeError"
  by (auto simp: applyRuleByContent_def split: if_splits
      dest: applyRuleToMatchingElements_error replaceMatchingText_error)

lemma applyRuleToPage_error:
  "applyRuleToPage pf r s = Inl e \<Longrightarrow> e = TypeError"
  by (auto simp: applyRuleToPage_def Let_def split: if_splits dest: applyRuleByContent_error)

lemma for_each_error:
  assumes "\<And>x s e. f x s = Inl e \<Longrightarrow> e = TypeError"
  shows "for_each f xs s = Inl e \<Longrightarrow> e = TypeError"
proof (induction xs arbitrary: s)
  case Nil
  then show ?case by simp
next
  case (Cons x xs)
  then show ?case by (auto split: sum.splits dest: assms)
qed

lemma applyAll_error: "applyAll pf s = Inl e \<Longrightarrow> e = TypeError"
  using for_each_error [of "applyRuleToPage pf", OF applyRuleToPage_error]
  by (auto simp: applyAll_def Let_def split: if_splits)

lemma nothing_valid_skip:
  assumes "nothing_valid pf r"
  shows "applyRuleToPage pf r t = Inr t"
proof -
  have "(case selector r of None \<Rightarrow> t
         | Some sel \<Rightarrow> if sel = [] then t else apply_selector pf r sel t) = t"
    using assms
    by (auto simp: nothing_valid_def invalid_selector_no_matches split: option.splits)
  moreover have "truthy (contentPattern r) \<Longrightarrow> applyRuleByContent pf r t = Inr t"
    using assms by (simp add: nothing_valid_def invalid_pattern_no_matches)
  ultimately show ?thesis by (simp add: applyRuleToPage_def Let_def)
qed

lemma for_each_all_skip:
  "(\<forall>x \<in> set xs. \<forall>t. f x t = Inr t) \<Longrightarrow> for_each f xs s = Inr s"
  by (induction xs) simp_all

lemma applyRuleByContent_throws_iff:
  "applyRuleByContent pf r s = Inl e \<longleftrightarrow>
     e = TypeError \<and> RegExp_valid pf (pattern_source r) \<and>
     (document_body (document s) = None \<or>
      (contentPattern r = None \<and> (action r = ''remove'' \<or> action r = ''hide'')))"
  by (auto simp: applyRuleByContent_def applyRuleToMatchingElements_def replaceMatchingText_def
      Let_def split: option.splits)

lemma applyRuleToPage_throws_iff:
  "applyRuleToPage pf r s = Inl e \<longleftrightarrow>
     e = TypeError \<and> truthy (contentPattern r) \<and> RegExp_valid pf (pattern_source r) \<and>
     document_body
       (document (case selector r of
                    None \<Rightarrow> s
                  | Some sel \<Rightarrow> if sel = [] then s else apply_selector pf r sel s)) = None"
  by (auto simp: applyRuleToPage_def Let_def applyRuleByContent_throws_iff truthy_def
      split: option.splits)

text \<open>The functions that apply a rule read its action, its pattern and its replacement.\<close>

lemma applyRuleToElement_fields:
  "applyRuleToElement pf el (r\<lparr>selector := x\<rparr>) s = applyRuleToElement pf el r s"
  "applyRuleToElement pf el (r\<lparr>contentPattern := y\<rparr>) s = applyRuleToElement pf el r s"
  by (simp_all add: applyRuleToElement_def applyRuleToElement_writes_def)

lemma pattern_source_selector:
  "pattern_source (r\<lparr>selector := x\<rparr>) = pattern_source r"
  by (simp add: pattern_source_def)

lemma rewritten_selector:
  "rewritten pf (r\<lparr>selector := x\<rparr>) old = rewritten pf r old"
  by (simp add: rewritten_def pattern_source_selector)

lemma applyRuleToTextNode_writes_selector:
  "applyRuleToTextNode_writes pf nd (r\<lparr>selector := x\<rparr>) s = applyRuleToTextNode_writes pf nd r s"
  unfolding applyRuleToTextNode_writes_eq
  by (simp add: pattern_source_selector rewritten_selector split: option.splits)

lemma applyRuleToTextNode_selector:
  "applyRuleToTextNode pf nd (r\<lparr>selector := x\<rparr>) s = applyRuleToTextNode pf nd r s"
  by (simp add: applyRuleToTextNode_def applyRuleToTextNode_writes_selector)

lemma applyRuleToMatchingElements_selector:
  "applyRuleToMatchingElements pf (r\<lparr>selector := x\<rparr>) s = applyRuleToMatchingElements pf r s"
  by (simp add: applyRuleToMatchingElements_def applyRuleToElement_fields
      cong: if_cong split: option.splits)

lemma replaceMatchingText_selector:
  "replaceMatchingText pf (r\<lparr>selector := x\<rparr>) s = replaceMatchingText pf r s"
  by (simp add: replaceMatchingText_def pattern_source_selector applyRuleToTextNode_selector
      cong: if_cong split: option.splits)

lemma applyRuleByContent_selector:
  "applyRuleByContent pf (r\<lparr>selector := x\<rparr>) s = applyRuleByContent pf r s"
  by (simp add: applyRuleByContent_def applyRuleToMatchingElements_selector
      replaceMatchingText_selector pattern_source_selector)

lemma apply_selector_pattern:
  "apply_selector pf (r\<lparr>contentPattern := y\<rparr>) sel s = apply_selector pf r sel s"
  by (simp add: apply_selector_def applyRuleToElement_fields cong: if_cong split: sum.splits)

lemma without_selector:
  assumes "selector r = Some sel" and "\<not> valid_selector pf sel"
  shows "applyRuleToPage pf r s = applyRuleToPage pf (r\<lparr>selector := None\<rparr>) s"
  using assms
  by (auto simp: applyRuleToPage_def Let_def invalid_selector_no_matches truthy_def
      applyRuleByContent_selector)

lemma without_pattern:
  assumes "truthy (contentPattern r)" and "\<not> RegExp_valid pf (pattern_source r)"
  shows "applyRuleToPage pf r s = applyRuleToPage pf (r\<lparr>contentPattern := None\<rparr>) s"
proof -
  have a: "(case selector r of None \<Rightarrow> s
            | Some sel \<Rightarrow> if sel = [] then s
                         else apply_selector pf (r\<lparr>contentPattern := None\<rparr>) sel s) =
           (case selector r of None \<Rightarrow> s
            | Some sel \<Rightarrow> if sel = [] then s else apply_selector pf r sel s)"
    by (simp add: apply_selector_pattern split: option.splits)
  have b: "\<not> truthy (selector r) \<Longrightarrow>
           (case selector r of None \<Rightarrow> s
            | Some sel \<Rightarrow> if sel = [] then s else apply_selector pf r sel s) = s"
    by (simp add: truthy_def split: option.splits)
  show ?thesis
    using assms b
    by (simp add: applyRuleToPage_def Let_def invalid_pattern_no_matches a truthy_def)
qed

lemma for_each_same_rule:
  assumes "\<And>t. f r t = f r' t"
  shows "for_each f (xs @ r # ys) s = for_each f (xs @ r' # ys) s"
  by (induction xs arbitrary: s) (simp_all add: assms split: sum.splits)

lemma applyAll_same_rule:
  assumes same: "\<And>t. applyRuleToPage pf r t = applyRuleToPage pf r' t"
    and host: "hostname r' = hostname r"
  shows "with_rules [] (applyAll pf (s\<lparr>rules := xs @ r # ys\<rparr>)) =
         with_rules [] (applyAll pf (s\<lparr>rules := xs @ r' # ys\<rparr>))"
proof (cases "enabled s")
  case False
  then show ?thesis by (simp add: applyAll_def with_rules_def)
next
  case True
  let ?h = "location_hostname pf"
  let ?s0 = "s\<lparr>appliedCount := 0\<rparr>"
  have upd: "(s\<lparr>rules := Q\<rparr>)\<lparr>appliedCount := 0\<rparr> = ?s0\<lparr>rules := Q\<rparr>" for Q
    by simp
  have a: "applyAll pf (s\<lparr>rules := Q\<rparr>) =
      with_rules Q (for_each (applyRuleToPage pf) (applicableRules ?h Q) ?s0)" for Q
    using applyAll_enabled [of "s\<lparr>rules := Q\<rparr>" pf] True unfolding upd
    by (simp add: for_each_rules)
  have b: "with_rules [] (with_rules Q res) = with_rules [] res" for Q res
    by (simp add: with_rules_def split: sum.splits)
  have g: "rule_applies ?h r' = rule_applies ?h r"
    by (simp add: rule_applies_def host)
  have c: "for_each (applyRuleToPage pf) (applicableRules ?h (xs @ r # ys)) ?s0 =
           for_each (applyRuleToPage pf) (applicableRules ?h (xs @ r' # ys)) ?s0"
  proof (cases "rule_applies ?h r")
    case False
    then show ?thesis using g by (simp add: applicableRules_def)
  next
    case True
    have "for_each (applyRuleToPage pf) (applicableRules ?h xs @ r # applicableRules ?h ys) ?s0 =
          for_each (applyRuleToPage pf) (applicableRules ?h xs @ r' # applicableRules ?h ys) ?s0"
      by (rule for_each_same_rule) (rule same)
    then show ?thesis using True g by (simp add: applicableRules_def)
  qed
  show ?thesis by (simp add: a b c)
qed

text \<open>
  C5, as the code has it. A malformed selector makes the selector strategy of its rule
  do nothing: the rule does what it does without its selector. A malformed pattern
  makes the content strategy do nothing: the rule does what it does without its
  pattern. applyAll ends with the same page and count, or the same throw, with the rule
  as with the rule without the malformed strategy, and a rule of which every strategy
  it has is malformed can as well be left out of the list: the other rules are
  processed as before. With only such rules, and when it is switched off, applyAll
  returns with the page as it was. No \<open>SyntaxError\<close> leaves applyAll. The only throw is the
  \<open>TypeError\<close> of a rule with a well-formed pattern that finds no \<open>document.body\<close>
  after its selector strategy has run.
\<close>

theorem malformed_rules_are_skipped:
  "(\<not> valid_selector pf sel \<longrightarrow> apply_selector pf r sel s = s) \<and>
   (selector r = Some sel \<and> \<not> valid_selector pf sel \<longrightarrow>
      applyRuleToPage pf r s = applyRuleToPage pf (r\<lparr>selector := None\<rparr>) s \<and>
      applyRuleToPage pf r s =
        (if truthy (contentPattern r) then applyRuleByContent pf r s else Inr s) \<and>
      with_rules [] (applyAll pf (s\<lparr>rules := xs @ r # ys\<rparr>)) =
        with_rules [] (applyAll pf (s\<lparr>rules := xs @ r\<lparr>selector := None\<rparr> # ys\<rparr>))) \<and>
   (\<not> RegExp_valid pf (pattern_source r) \<longrightarrow> applyRuleByContent pf r s = Inr s) \<and>
   (truthy (contentPattern r) \<and> \<not> RegExp_valid pf (pattern_source r) \<longrightarrow>
      applyRuleToPage pf r s = applyRuleToPage pf (r\<lparr>contentPattern := None\<rparr>) s \<and>
      applyRuleToPage pf r s =
        Inr (case selector r of
               None \<Rightarrow> s
             | Some sel' \<Rightarrow> if sel' = [] then s else apply_selector pf r sel' s) \<and>
      with_rules [] (applyAll pf (s\<lparr>rules := xs @ r # ys\<rparr>)) =
        with_rules [] (applyAll pf (s\<lparr>rules := xs @ r\<lparr>contentPattern := None\<rparr> # ys\<rparr>))) \<and>
   (nothing_valid pf r \<longrightarrow>
      applyRuleToPage pf r s = Inr s \<and>
      for_each (applyRuleToPage pf) (xs @ r # ys) s = for_each (applyRuleToPage pf) (xs @ ys) s \<and>
      with_rules [] (applyAll pf (s\<lparr>rules := xs @ r # ys\<rparr>)) =
        with_rules [] (applyAll pf (s\<lparr>rules := xs @ ys\<rparr>))) \<and>
   ((\<forall>q \<in> set (rules s). nothing_valid pf q) \<longrightarrow>
      applyAll pf s = Inr (if enabled s then s\<lparr>appliedCount := 0\<rparr> else s)) \<and>
   (enabled s \<longrightarrow>
      applyAll pf s =
        for_each (applyRuleToPage pf) (applicableRules (location_hostname pf) (rules s))
          (s\<lparr>appliedCount := 0\<rparr>)) \<and>
   (\<not> enabled s \<longrightarrow> applyAll pf s = Inr s) \<and>
   (applyRuleToPage pf r s = Inl e \<longleftrightarrow>
      e = TypeError \<and> truthy (contentPattern r) \<and> RegExp_valid pf (pattern_source r) \<and>
      document_body
        (document (case selector r of
                     None \<Rightarrow> s
                   | Some sel' \<Rightarrow> if sel' = [] then s else apply_selector pf r sel' s)) = None) \<and>
   applyAll pf s \<noteq> Inl SyntaxError"
proof (intro conjI impI)
  assume "\<not> valid_selector pf sel"
  then show "apply_selector pf r sel s = s" by (rule invalid_selector_no_matches)
next
  assume a: "selector r = Some sel \<and> \<not> valid_selector pf sel"
  then show "applyRuleToPage pf r s =
        (if truthy (contentPattern r) then applyRuleByContent pf r s else Inr s)"
    by (auto simp: applyRuleToPage_def Let_def invalid_selector_no_matches truthy_def)
  have w: "applyRuleToPage pf r t = applyRuleToPage pf (r\<lparr>selector := None\<rparr>) t" for t
    using a without_selector by blast
  show "applyRuleToPage pf r s = applyRuleToPage pf (r\<lparr>selector := None\<rparr>) s" by (rule w)
  show "with_rules [] (applyAll pf (s\<lparr>rules := xs @ r # ys\<rparr>)) =
        with_rules [] (applyAll pf (s\<lparr>rules := xs @ r\<lparr>selector := None\<rparr> # ys\<rparr>))"
    by (rule applyAll_same_rule) (simp_all add: w)
next
  assume "\<not> RegExp_valid pf (pattern_source r)"
  then show "applyRuleByContent pf r s = Inr s" by (rule invalid_pattern_no_matches)
next
  assume a: "truthy (contentPattern r) \<and> \<not> RegExp_valid pf (pattern_source r)"
  then show "applyRuleToPage pf r s =
        Inr (case selector r of
               None \<Rightarrow> s
             | Some sel' \<Rightarrow> if sel' = [] then s else apply_selector pf r sel' s)"
    by (simp add: applyRuleToPage_def Let_def invalid_pattern_no_matches)
  have w: "applyRuleToPage pf r t = applyRuleToPage pf (r\<lparr>contentPattern := None\<rparr>) t" for t
    using a without_pattern by blast
  show "applyRuleToPage pf r s = applyRuleToPage pf (r\<lparr>contentPattern := None\<rparr>) s"
    by (rule w)
  show "with_rules [] (applyAll pf (s\<lparr>rules := xs @ r # ys\<rparr>)) =
        with_rules [] (applyAll pf (s\<lparr>rules := xs @ r\<lparr>contentPattern := None\<rparr> # ys\<rparr>))"
    by (rule applyAll_same_rule) (simp_all add: w)
next
  assume a: "nothing_valid pf r"
  show "applyRuleToPage pf r s = Inr s" using a by (rule nothing_valid_skip)
  show "for_each (applyRuleToPage pf) (xs @ r # ys) s = for_each (applyRuleToPage pf) (xs @ ys) s"
    by (rule for_each_skip) (rule nothing_valid_skip [OF a])
  show "with_rules [] (applyAll pf (s\<lparr>rules := xs @ r # ys\<rparr>)) =
        with_rules [] (applyAll pf (s\<lparr>rules := xs @ ys\<rparr>))"
    by (rule applyAll_without) (simp add: nothing_valid_skip [OF a])
next
  assume a: "\<forall>q \<in> set (rules s). nothing_valid pf q"
  let ?rs = "applicableRules (location_hostname pf) (rules s)"
  have "\<forall>q \<in> set ?rs. \<forall>t. applyRuleToPage pf q t = Inr t"
    using a by (auto simp: applicableRules_def nothing_valid_skip)
  then have "for_each (applyRuleToPage pf) ?rs (s\<lparr>appliedCount := 0\<rparr>) = Inr (s\<lparr>appliedCount := 0\<rparr>)"
    by (rule for_each_all_skip)
  then show "applyAll pf s = Inr (if enabled s then s\<lparr>appliedCount := 0\<rparr> else s)"
    by (simp add: applyAll_def Let_def)
next
  assume "\<not> enabled s"
  then show "applyAll pf s = Inr s" by (simp add: applyAll_def)
next
  assume "enabled s"
  then show "applyAll pf s =
        for_each (applyRuleToPage pf) (applicableRules (location_hostname pf) (rules s))
          (s\<lparr>appliedCount := 0\<rparr>)"
    by (rule applyAll_enabled)
next
  show "applyRuleToPage pf r s = Inl e \<longleftrightarrow>
      e = TypeError \<and> truthy (contentPattern r) \<and> RegExp_valid pf (pattern_source r) \<and>
      document_body
        (document (case selector r of
                     None \<Rightarrow> s
                   | Some sel' \<Rightarrow> if sel' = [] then s else apply_selector pf r sel' s)) = None"
    by (rule applyRuleToPage_throws_iff)
  show "applyAll pf s \<noteq> Inl SyntaxError"
    using applyAll_error [of pf s SyntaxError] by auto
qed

theorem malformed_rules_are_skipped_witness:
  "selector ex_bad_selector = Some ''a['' \<and>
   \<not> valid_selector demo ''a['' \<and>
   \<not> RegExp_valid demo (pattern_source ex_bad_pattern) \<and>
   nothing_valid demo ex_bad_selector \<and>
   nothing_valid demo ex_bad_pattern \<and>
   applyRuleToPage demo ex_bad_selector (start [] ex_page) = Inr (start [] ex_page) \<and>
   applyRuleToPage demo ex_bad_pattern (start [] ex_page) = Inr (start [] ex_page) \<and>
   for_each (applyRuleToPage demo) [ex_bad_selector, ex_remove] (start [] ex_page) =
     for_each (applyRuleToPage demo) [ex_remove] (start [] ex_page) \<and>
   applyAll demo (start [ex_bad_selector, ex_bad_pattern] ex_page) =
     Inr (start [ex_bad_selector, ex_bad_pattern] ex_page) \<and>
   selector ex_mixed = Some ''a['' \<and>
   applyRuleToPage demo ex_mixed (start [] ex_page) =
     applyRuleToPage demo (ex_mixed\<lparr>selector := None\<rparr>) (start [] ex_page) \<and>
   count_of (applyRuleToPage demo ex_mixed (start [] ex_page)) = Some 2 \<and>
   count_of (applyAll demo (start [ex_bad_selector, ex_bad_pattern, ex_remove] ex_page)) = Some 2"
proof -
  let ?s = "start [] ex_page"
  let ?s2 = "start [ex_bad_selector, ex_bad_pattern] ex_page"
  have a: "selector ex_bad_selector = Some ''a[''"
    by (simp add: ex_bad_selector_def blank_rule_def)
  have b: "\<not> valid_selector demo ''a[''" by code_simp
  have c: "\<not> RegExp_valid demo (pattern_source ex_bad_pattern)" by code_simp
  have d: "nothing_valid demo ex_bad_selector"
    using b by (simp add: nothing_valid_def ex_bad_selector_def blank_rule_def truthy_def)
  have e: "nothing_valid demo ex_bad_pattern"
    using c by (simp add: nothing_valid_def ex_bad_pattern_def blank_rule_def)
  have f: "applyRuleToPage demo ex_bad_selector ?s = Inr ?s \<and>
    for_each (applyRuleToPage demo) ([] @ ex_bad_selector # [ex_remove]) ?s =
      for_each (applyRuleToPage demo) ([] @ [ex_remove]) ?s"
    using d malformed_rules_are_skipped
      [where pf = demo and r = ex_bad_selector and s = ?s and xs = "[]" and ys = "[ex_remove]"]
    by blast
  have g: "applyRuleToPage demo ex_bad_pattern ?s = Inr ?s"
    using e malformed_rules_are_skipped [where pf = demo and r = ex_bad_pattern and s = ?s]
    by blast
  have h: "\<forall>q \<in> set (rules ?s2). nothing_valid demo q"
    using d e by (simp add: start_def)
  have en: "enabled ?s2" by (simp add: start_def)
  have "applyAll demo ?s2 = Inr (if enabled ?s2 then ?s2\<lparr>appliedCount := 0\<rparr> else ?s2)"
    using h malformed_rules_are_skipped [where pf = demo and s = ?s2]
    by blast
  then have i: "applyAll demo ?s2 = Inr (?s2\<lparr>appliedCount := 0\<rparr>)"
    using en by simp
  have j: "?s2\<lparr>appliedCount := 0\<rparr> = ?s2" by (simp add: start_def)
  have k: "count_of (applyAll demo (start [ex_bad_selector, ex_bad_pattern, ex_remove] ex_page)) = Some 2"
    by code_simp
  have l: "selector ex_mixed = Some ''a[''"
    by (simp add: ex_mixed_def blank_rule_def)
  have m: "applyRuleToPage demo ex_mixed ?s = applyRuleToPage demo (ex_mixed\<lparr>selector := None\<rparr>) ?s"
    using l b malformed_rules_are_skipped
      [where pf = demo and r = ex_mixed and s = ?s and sel = "''a[''"]
    by blast
  have n: "count_of (applyRuleToPage demo ex_mixed ?s) = Some 2" by code_simp
  show ?thesis using a b c d e f g i j k l m n by simp
qed

text \<open>
  C5, as stated, fails: applyAll can throw with a malformed rule in the list. The rule
  has the malformed selector \<open>a[\<close> and the pattern \<open>ab\<close>. Its selector strategy
  is skipped and its content strategy asks for the elements of \<open>document.body\<close>: on a
  page without body, and on a page whose body a rule before it has removed, that is a
  \<open>TypeError\<close>, outside every \<open>try\<close>.
\<close>

theorem malformed_rule_and_no_body:
  "\<not> valid_selector demo ''a['' \<and>
   selector ex_mixed = Some ''a['' \<and>
   applyAll demo (start [ex_mixed] ex_no_body) = Inl TypeError \<and>
   applyAll demo (start [ex_remove_body, ex_mixed] ex_page) = Inl TypeError"
  by code_simp

section \<open>The page apart from marks and hiding\<close>

lemma unmarked_simps [simp]:
  "tagName (unmarked e) = tagName e"
  "elem_id (unmarked e) = elem_id e"
  "className (unmarked e) = className e"
  "processed (unmarked e) = False"
  "unmarked (e\<lparr>processed := b\<rparr>) = unmarked e"
  "unmarked (e\<lparr>display_none := b\<rparr>) = unmarked e"
  by (simp_all add: unmarked_def)

lemma shape_basic [simp]:
  "linked (shape n) = linked n"
  "is_element (shape n) = is_element n"
  "slots (shape n) = map shape (slots n)"
  "is_body (shape n) = is_body n"
  by (cases n; simp add: is_body_def)+

lemma shape_mark_node [simp]: "shape (mark_node n) = shape n"
  by (cases n) simp_all

lemma shape_hide_node [simp]: "shape (hide_node n) = shape n"
  by (cases n) simp_all

lemma shape_update_at:
  assumes "\<And>n. shape (f n) = shape n"
  shows "shape (update_at p f d) = shape d"
proof (induction p arbitrary: d)
  case Nil
  then show ?case by (simp add: assms)
next
  case (Cons i p)
  show ?case
  proof (cases d)
    case (Text l s)
    then show ?thesis by simp
  next
    case (Element l e cs)
    then show ?thesis
      by (simp add: map_update Cons.IH list_update_same_conv)
  qed
qed

lemma node_at_shape: "node_at (shape d) p = map_option shape (node_at d p)"
  by (induction p arbitrary: d) simp_all

lemma textContent_shape [simp]: "textContent (shape n) = textContent n"
proof (induction n)
  case (Text l s)
  then show ?case by simp
next
  case (Element l e cs)
  have "map textContent (filter linked (map shape cs)) = map textContent (filter linked cs)"
    using Element by (induction cs) auto
  then show ?case by simp
qed

lemma descendants_shape:
  "descendants (shape n) = descendants n"
  "descendants_from i (map shape cs) = descendants_from i cs"
  by (induction n and i cs rule: descendants_descendants_from.induct) simp_all

lemma elem_at_shape: "elem_at (shape d) p = map_option unmarked (elem_at d p)"
proof (cases "node_at d p")
  case None
  then show ?thesis by (simp add: elem_at_def node_at_shape)
next
  case (Some n)
  then show ?thesis by (cases n) (simp_all add: elem_at_def node_at_shape)
qed

lemma at_shape [simp]:
  "textContent_at (shape d) p = textContent_at d p"
  "is_element_at (shape d) p = is_element_at d p"
  "is_text_at (shape d) p = is_text_at d p"
  "children_length (shape d) p = children_length d p"
  by (cases "node_at d p";
      simp add: textContent_at_def is_element_at_def is_text_at_def children_length_def
        node_at_shape filter_map comp_def)+

lemma hasProcessed_shape [simp]: "hasProcessed (shape d) p = False"
  by (simp add: hasProcessed_def elem_at_shape split: option.splits)

lemma parentElement_shape [simp]: "parentElement (shape d) p = parentElement d p"
  by (cases "node_at d p") (simp_all add: parentElement_def node_at_shape)

lemma first_body_shape: "first_body i (map shape cs) = first_body i cs"
  by (induction cs arbitrary: i) simp_all

lemma document_body_shape [simp]: "document_body (shape d) = document_body d"
  by (cases d) (simp_all add: document_body_def first_body_shape)

lemma documentElement_shape [simp]: "documentElement (shape d) = documentElement d"
  by (simp add: documentElement_def)

lemma descendants_at_shape [simp]: "descendants_at (shape d) b = descendants_at d b"
  by (cases "node_at d b") (simp_all add: descendants_at_def node_at_shape descendants_shape)

lemma body_elements_shape [simp]: "body_elements (shape d) b = body_elements d b"
  by (simp add: body_elements_def elem_at_shape option.case_eq_if option.map_sel cong: filter_cong)

lemma all_elements_shape [simp]: "all_elements (shape d) = all_elements d"
  by (simp add: all_elements_def descendants_shape cong: filter_cong)

lemma qualifies_shape:
  "qualifies pf pat d el = (\<not> hasProcessed d el \<and> qualifies pf pat (shape d) el)"
  by (simp add: qualifies_def)


lemma calm_refl [simp]: "calm s s"
  by (simp add: calm_def)

lemma calm_trans: "calm s t \<Longrightarrow> calm t u \<Longrightarrow> calm s u"
  by (simp add: calm_def)

lemma calm_count [simp]: "calm s (t\<lparr>appliedCount := n\<rparr>) = calm s t"
  by (simp add: calm_def)

lemma by_shape:
  assumes "shape d' = shape d"
  shows "is_element_at d' p = is_element_at d p"
    and "document_body d' = document_body d"
    and "body_elements d' b = body_elements d b"
    and "all_elements d' = all_elements d"
    and "qualifies pf pat (shape d') el = qualifies pf pat (shape d) el"
proof -
  show "is_element_at d' p = is_element_at d p"
    using at_shape(2) [of d' p] at_shape(2) [of d p] assms by simp
  show "document_body d' = document_body d"
    using document_body_shape [of d'] document_body_shape [of d] assms by simp
  show "body_elements d' b = body_elements d b"
    using body_elements_shape [of d' b] body_elements_shape [of d b] assms by simp
  show "all_elements d' = all_elements d"
    using all_elements_shape [of d'] all_elements_shape [of d] assms by simp
  show "qualifies pf pat (shape d') el = qualifies pf pat (shape d) el"
    using assms by simp
qed

lemma marked_by_applyRuleToElement:
  assumes "is_element_at (document s) el"
  shows "hasProcessed (document (applyRuleToElement pf el r s)) el"
proof (cases "hasProcessed (document s) el")
  case True
  then show ?thesis by (simp add: processed_applyRuleToElement_noop)
next
  case False
  then obtain ms where w: "applyRuleToElement_writes r el s = SetProcessed el # IncApplied # ms"
    using applyRuleToElement_writes_shape by blast
  let ?s2 = "exec pf IncApplied (exec pf (SetProcessed el) s)"
  have "hasProcessed (document ?s2) el"
    using assms by (simp add: hasProcessed_after_mark)
  moreover have "grows ?s2 (run pf ms ?s2)" by (rule grows_run)
  ultimately have "hasProcessed (document (run pf ms ?s2)) el"
    by (simp add: grows_def)
  then show ?thesis by (simp add: applyRuleToElement_def w run_def)
qed

lemma calm_hide:
  assumes "action r = ''hide''"
  shows "calm s (applyRuleToElement pf el r s)"
proof -
  have g: "grows s (applyRuleToElement pf el r s)" by (rule grows_applyRuleToElement)
  have "shape (document (applyRuleToElement pf el r s)) = shape (document s) \<and>
        rules (applyRuleToElement pf el r s) = rules s \<and>
        enabled (applyRuleToElement pf el r s) = enabled s"
    using assms
    by (simp add: applyRuleToElement_def applyRuleToElement_writes_def run_def shape_update_at)
  then show ?thesis using g by (simp add: calm_def grows_def)
qed

lemma fold_settles:
  assumes hide: "action r = ''hide''"
    and marked: "\<And>t el. hasProcessed (document t) el \<Longrightarrow> \<not> C t el"
    and stable: "\<And>t u el. \<not> C t el \<Longrightarrow> calm t u \<Longrightarrow> \<not> C u el"
  shows "(\<forall>el \<in> set L. is_element_at (document s) el) \<Longrightarrow>
     calm s (foldl (\<lambda>t el. if C t el then applyRuleToElement pf el r t else t) s L) \<and>
     (\<forall>el \<in> set L. \<not> C (foldl (\<lambda>t el. if C t el then applyRuleToElement pf el r t else t) s L) el)"
proof (induction L arbitrary: s)
  case Nil
  then show ?case by simp
next
  case (Cons el L)
  let ?step = "\<lambda>t el. if C t el then applyRuleToElement pf el r t else t"
  let ?s1 = "?step s el"
  have c1: "calm s ?s1" using hide by (simp add: calm_hide)
  have el: "is_element_at (document s) el" using Cons.prems by simp
  have n1: "\<not> C ?s1 el"
    using marked [OF marked_by_applyRuleToElement [OF el, of pf r]] by auto
  have sh: "shape (document ?s1) = shape (document s)" using c1 by (simp add: calm_def)
  have els: "\<forall>x \<in> set L. is_element_at (document ?s1) x"
    using Cons.prems by_shape(1) [OF sh] by simp
  have ih: "calm ?s1 (foldl ?step ?s1 L) \<and> (\<forall>x \<in> set L. \<not> C (foldl ?step ?s1 L) x)"
    using Cons.IH [OF els] .
  have "\<not> C (foldl ?step ?s1 L) el" using stable [OF n1] ih by blast
  moreover have "calm s (foldl ?step ?s1 L)" using c1 ih calm_trans by blast
  ultimately show ?case using ih by simp
qed

lemma qualifies_stable:
  "\<not> qualifies pf pat (document t) el \<Longrightarrow> calm t u \<Longrightarrow> \<not> qualifies pf pat (document u) el"
  using qualifies_shape [of pf pat "document t" el] qualifies_shape [of pf pat "document u" el]
  by (auto simp: calm_def)

lemma body_elements_are_elements:
  "el \<in> set (body_elements d b) \<Longrightarrow> is_element_at d el"
  by (auto simp: body_elements_def elem_at_def is_element_at_def
      split: option.splits node.splits)

lemma all_elements_are_elements: "el \<in> set (all_elements d) \<Longrightarrow> is_element_at d el"
  by (auto simp: all_elements_def split: if_splits)

lemma mark_blind_eq:
  assumes "mark_blind pf sel" and "shape d' = shape d"
  shows "selector_matches pf sel d' p = selector_matches pf sel d p"
proof -
  have a: "selector_matches pf sel (shape d') p = selector_matches pf sel d' p"
    using assms(1) unfolding mark_blind_def by blast
  have b: "selector_matches pf sel (shape d) p = selector_matches pf sel d p"
    using assms(1) unfolding mark_blind_def by blast
  show ?thesis using a b by (simp only: assms(2))
qed

lemma quiet_selector_stable:
  assumes "hides_blindly pf r" and "quiet_selector pf r (document t)" and "calm t u"
  shows "quiet_selector pf r (document u)"
  unfolding quiet_selector_def
proof (intro allI impI)
  fix sel
  assume a: "selector r = Some sel \<and> sel \<noteq> [] \<and> valid_selector pf sel"
  have sh: "shape (document u) = shape (document t)" using assms(3) by (simp add: calm_def)
  have blind: "mark_blind pf sel" using assms(1) a by (simp add: hides_blindly_def)
  have m: "selector_matches pf sel (document u) = selector_matches pf sel (document t)"
    by (rule ext) (rule mark_blind_eq [OF blind sh])
  have "\<forall>el \<in> set (filter (selector_matches pf sel (document t)) (all_elements (document t))).
          hasProcessed (document t) el"
    using assms(2) a unfolding quiet_selector_def by blast
  then show "\<forall>el \<in> set (filter (selector_matches pf sel (document u)) (all_elements (document u))).
          hasProcessed (document u) el"
    using assms(3) unfolding m by_shape(4) [OF sh] by (simp add: calm_def)
qed

lemma quiet_content_stable:
  assumes "quiet_content pf r (document t)" and "calm t u"
  shows "quiet_content pf r (document u)"
proof -
  have sh: "shape (document u) = shape (document t)" using assms(2) by (simp add: calm_def)
  show ?thesis
    using assms(1) qualifies_stable [OF _ assms(2)] by_shape(2) [OF sh] by_shape(3) [OF sh]
    unfolding quiet_content_def by (metis (no_types, lifting))
qed


lemma apply_selector_settles:
  assumes hide: "action r = ''hide''" and blind: "valid_selector pf sel \<Longrightarrow> mark_blind pf sel"
  shows "calm s (apply_selector pf r sel s) \<and>
         (valid_selector pf sel \<longrightarrow>
            (\<forall>el \<in> set (filter (selector_matches pf sel (document (apply_selector pf r sel s)))
                           (all_elements (document (apply_selector pf r sel s)))).
               hasProcessed (document (apply_selector pf r sel s)) el))"
proof (cases "valid_selector pf sel")
  case False
  then show ?thesis by (simp add: invalid_selector_no_matches)
next
  case True
  let ?L = "filter (selector_matches pf sel (document s)) (all_elements (document s))"
  let ?t = "foldl (\<lambda>t el. if \<not> hasProcessed (document t) el
                          then applyRuleToElement pf el r t else t) s ?L"
  have t: "apply_selector pf r sel s = ?t"
    using True by (simp add: apply_selector_def querySelectorAll_def)
  have els: "\<forall>el \<in> set ?L. is_element_at (document s) el"
    by (auto dest: all_elements_are_elements)
  have fs: "calm s ?t \<and> (\<forall>el \<in> set ?L. \<not> \<not> hasProcessed (document ?t) el)"
    by (rule fold_settles [OF hide _ _ els]) (auto simp: calm_def)
  then have sh: "shape (document ?t) = shape (document s)" by (simp add: calm_def)
  have m: "selector_matches pf sel (document ?t) = selector_matches pf sel (document s)"
    by (rule ext) (rule mark_blind_eq [OF blind [OF True] sh])
  have "filter (selector_matches pf sel (document ?t)) (all_elements (document ?t)) = ?L"
    by (simp only: by_shape(4) [OF sh] m)
  then show ?thesis using fs t by simp
qed

lemma applyRuleToMatchingElements_settles:
  assumes hide: "action r = ''hide''"
    and res: "applyRuleToMatchingElements pf r s = Inr t"
  shows "calm s t \<and>
         (\<exists>b pat. document_body (document t) = Some b \<and> contentPattern r = Some pat \<and>
            (\<forall>el \<in> set (body_elements (document t) b). \<not> qualifies pf pat (document t) el))"
proof -
  from res obtain b pat where b: "document_body (document s) = Some b"
    and pat: "contentPattern r = Some pat"
    and t: "t = foldl (\<lambda>t el. if qualifies pf pat (document t) el
                               then applyRuleToElement pf el r t else t)
                  s (body_elements (document s) b)"
    by (auto simp: applyRuleToMatchingElements_def split: option.splits)
  let ?L = "body_elements (document s) b"
  have els: "\<forall>el \<in> set ?L. is_element_at (document s) el"
    by (auto dest: body_elements_are_elements)
  have fs: "calm s t \<and> (\<forall>el \<in> set ?L. \<not> qualifies pf pat (document t) el)"
    unfolding t
    by (rule fold_settles [OF hide _ _ els])
       (auto simp: processed_not_qualifies dest: qualifies_stable)
  then have sh: "shape (document t) = shape (document s)" by (simp add: calm_def)
  show ?thesis
    using fs b pat by_shape(2) [OF sh] by_shape(3) [OF sh] by auto
qed

lemma applyRuleByContent_settles:
  assumes hide: "action r = ''hide''"
    and res: "applyRuleByContent pf r s = Inr t"
  shows "calm s t \<and> quiet_content pf r (document t)"
proof (cases "RegExp_valid pf (pattern_source r)")
  case False
  then show ?thesis using res by (simp add: applyRuleByContent_def quiet_content_def)
next
  case True
  then have "applyRuleToMatchingElements pf r s = Inr t"
    using res hide by (simp add: applyRuleByContent_def)
  from applyRuleToMatchingElements_settles [OF hide this]
  show ?thesis by (auto simp: quiet_content_def)
qed

lemma applyRuleToPage_settles:
  assumes hb: "hides_blindly pf r"
    and res: "applyRuleToPage pf r s = Inr t"
  shows "calm s t \<and> quiet_selector pf r (document t) \<and> quiet_content pf r (document t)"
proof (cases "\<not> truthy (contentPattern r) \<and> \<not> truthy (selector r)")
  case True
  then have "t = s" using res by (simp add: applyRuleToPage_def)
  then show ?thesis
    using True by (auto simp: quiet_selector_def quiet_content_def truthy_def)
next
  case False
  have hide: "action r = ''hide''" using hb by (simp add: hides_blindly_def)
  define s1 where "s1 = (case selector r of None \<Rightarrow> s
                         | Some sel \<Rightarrow> if sel = [] then s else apply_selector pf r sel s)"
  have c1: "calm s s1 \<and> quiet_selector pf r (document s1)"
  proof (cases "selector r")
    case None
    then show ?thesis by (simp add: s1_def quiet_selector_def)
  next
    case (Some sel)
    show ?thesis
    proof (cases "sel = []")
      case True
      with Some show ?thesis by (simp add: s1_def quiet_selector_def)
    next
      case False
      with Some have s1: "s1 = apply_selector pf r sel s" by (simp add: s1_def)
      have blind: "valid_selector pf sel \<Longrightarrow> mark_blind pf sel"
        using hb Some False by (simp add: hides_blindly_def)
      show ?thesis
        using apply_selector_settles [OF hide blind, of s] Some s1
        by (simp add: quiet_selector_def)
    qed
  qed
  have step: "(if truthy (contentPattern r) then applyRuleByContent pf r s1 else Inr s1) = Inr t"
    using res False unfolding applyRuleToPage_def Let_def s1_def by (simp split: if_splits)
  show ?thesis
  proof (cases "truthy (contentPattern r)")
    case True
    then have "applyRuleByContent pf r s1 = Inr t" using step by simp
    from applyRuleByContent_settles [OF hide this]
    have c2: "calm s1 t" and qc: "quiet_content pf r (document t)" by simp_all
    have "quiet_selector pf r (document t)"
      using quiet_selector_stable [OF hb _ c2] c1 by simp
    then show ?thesis using c1 c2 qc calm_trans by blast
  next
    case False
    then have "t = s1" using step by simp
    then show ?thesis using c1 False by (simp add: quiet_content_def)
  qed
qed

lemma quiet_foldl_selector:
  "(\<forall>el \<in> set L. hasProcessed (document t) el) \<Longrightarrow>
     foldl (\<lambda>t el. if \<not> hasProcessed (document t) el then applyRuleToElement pf el r t else t) t L = t"
  by (induction L) simp_all

lemma quiet_foldl_content:
  "(\<forall>el \<in> set L. \<not> qualifies pf pat (document t) el) \<Longrightarrow>
     foldl (\<lambda>t el. if qualifies pf pat (document t) el then applyRuleToElement pf el r t else t) t L = t"
  by (induction L) simp_all

lemma quiet_is_noop:
  assumes hide: "action r = ''hide''"
    and qs: "quiet_selector pf r (document t)" and qc: "quiet_content pf r (document t)"
  shows "applyRuleToPage pf r t = Inr t"
proof -
  have sel: "(case selector r of None \<Rightarrow> t
              | Some sel \<Rightarrow> if sel = [] then t else apply_selector pf r sel t) = t"
  proof (cases "selector r")
    case None
    then show ?thesis by simp
  next
    case (Some sel)
    show ?thesis
    proof (cases "sel = [] \<or> \<not> valid_selector pf sel")
      case True
      with Some show ?thesis by (auto simp: invalid_selector_no_matches)
    next
      case False
      then have "\<forall>el \<in> set (filter (selector_matches pf sel (document t))
                                 (all_elements (document t))). hasProcessed (document t) el"
        using qs Some unfolding quiet_selector_def by blast
      then have "apply_selector pf r sel t = t"
        using False by (simp add: apply_selector_def querySelectorAll_def quiet_foldl_selector)
      with Some show ?thesis by simp
    qed
  qed
  have con: "truthy (contentPattern r) \<Longrightarrow> applyRuleByContent pf r t = Inr t"
  proof (cases "RegExp_valid pf (pattern_source r)")
    case False
    then show ?thesis by (simp add: invalid_pattern_no_matches)
  next
    case True
    assume "truthy (contentPattern r)"
    then obtain b pat where "document_body (document t) = Some b" "contentPattern r = Some pat"
      "\<forall>el \<in> set (body_elements (document t) b). \<not> qualifies pf pat (document t) el"
      using qc True unfolding quiet_content_def by blast
    then show ?thesis
      using True hide
      by (simp add: applyRuleByContent_def applyRuleToMatchingElements_def quiet_foldl_content)
  qed
  show ?thesis
    using sel con by (simp add: applyRuleToPage_def Let_def)
qed

lemma for_each_settles:
  "(\<forall>r \<in> set rs. hides_blindly pf r) \<Longrightarrow> for_each (applyRuleToPage pf) rs s = Inr t \<Longrightarrow>
     calm s t \<and>
     (\<forall>r \<in> set rs. quiet_selector pf r (document t) \<and> quiet_content pf r (document t))"
proof (induction rs arbitrary: s)
  case Nil
  then show ?case by simp
next
  case (Cons r rs)
  from Cons.prems obtain s1 where s1: "applyRuleToPage pf r s = Inr s1"
    and rest: "for_each (applyRuleToPage pf) rs s1 = Inr t"
    by (auto split: sum.splits)
  have hb: "hides_blindly pf r" using Cons.prems by simp
  from applyRuleToPage_settles [OF hb s1]
  have c1: "calm s s1" and q1: "quiet_selector pf r (document s1)" "quiet_content pf r (document s1)"
    by simp_all
  have ih: "calm s1 t \<and>
     (\<forall>r \<in> set rs. quiet_selector pf r (document t) \<and> quiet_content pf r (document t))"
    using Cons.IH [OF _ rest] Cons.prems by simp
  have "quiet_selector pf r (document t)"
    using quiet_selector_stable [OF hb q1(1)] ih by simp
  moreover have "quiet_content pf r (document t)"
    using quiet_content_stable [OF q1(2)] ih by simp
  moreover have "calm s t" using c1 ih calm_trans by blast
  ultimately show ?case using ih by simp
qed

lemma for_each_quiet:
  "(\<forall>r \<in> set rs. action r = ''hide'' \<and> quiet_selector pf r (document t) \<and>
       quiet_content pf r (document t)) \<Longrightarrow>
     for_each (applyRuleToPage pf) rs t = Inr t"
  by (induction rs) (simp_all add: quiet_is_noop)

lemma hide_rules_idempotent:
  assumes hide: "\<forall>r \<in> set (rules s). hides_blindly pf r"
    and res: "applyAll pf s = Inr t"
  shows "applyAll pf t = Inr (if enabled s then t\<lparr>appliedCount := 0\<rparr> else t)"
proof (cases "enabled s")
  case False
  then have "t = s" using res by (simp add: applyAll_def)
  then show ?thesis using False by (simp add: applyAll_def)
next
  case True
  let ?rs = "applicableRules (location_hostname pf) (rules s)"
  let ?s0 = "s\<lparr>appliedCount := 0\<rparr>"
  have hrs: "\<forall>r \<in> set ?rs. hides_blindly pf r"
    using hide by (simp add: applicableRules_def)
  have run: "for_each (applyRuleToPage pf) ?rs ?s0 = Inr t"
    using res True by (cases ?rs) (simp_all add: applyAll_def Let_def)
  from for_each_settles [OF hrs run]
  have c: "calm ?s0 t"
    and q: "\<forall>r \<in> set ?rs. quiet_selector pf r (document t) \<and> quiet_content pf r (document t)"
    by simp_all
  have same: "rules t = rules s" "enabled t" using c True by (simp_all add: calm_def)
  let ?t0 = "t\<lparr>appliedCount := 0\<rparr>"
  have "for_each (applyRuleToPage pf) ?rs ?t0 = Inr ?t0"
    by (rule for_each_quiet) (use hrs q in \<open>simp add: hides_blindly_def\<close>)
  then show ?thesis
    using True same by (cases ?rs) (simp_all add: applyAll_def Let_def)
qed

section \<open>Calling applyAll again\<close>

lemma demo_marks_type_selectors_blind:
  "sel \<noteq> ''[data-xorcist-processed] > span'' \<Longrightarrow> mark_blind demo_marks sel"
  by (simp add: mark_blind_def demo_marks_def demo_def demo_marks_matches_def demo_matches_def
      elem_at_shape option.case_eq_if option.map_sel)





section \<open>The heuristic for removing and hiding by content\<close>

lemma trim_keeps:
  assumes "s \<noteq> []" and "\<not> is_space (hd s)" and "\<not> is_space (last s)"
  shows "trim s = s"
proof -
  have a: "dropWhile is_space s = s"
    using assms by (simp add: dropWhile_eq_self_iff)
  have "dropWhile is_space (rev s) = rev s"
    using assms by (simp add: dropWhile_eq_self_iff hd_rev)
  then show ?thesis by (simp add: trim_def a)
qed

lemma qualifies_iff:
  "qualifies pf pat d el \<longleftrightarrow>
      \<not> hasProcessed d el \<and>
      trim (textContent_at d el) \<noteq> [] \<and>
      RegExp_test pf pat (trim (textContent_at d el)) \<and>
      (length pat \<le> 3 \<longrightarrow>
         length (filter (\<lambda>c. \<not> is_separator c) (toLowerCase (trim (textContent_at d el))))
           \<le> length pat + 2) \<and>
      (3 < length pat \<and> length pat \<le> 20 \<longrightarrow>
         length (trim (textContent_at d el)) \<le> 3 * length pat) \<and>
      (children_length d el = 0 \<or> length (trim (textContent_at d el)) < 100)"
  by (auto simp: qualifies_def Let_def mult.commute)

text \<open>The characters of the examples.\<close>

lemma example_chars:
  "\<not> is_space CHR ''z''" "\<not> is_space CHR ''a''" "\<not> is_space CHR ''.''"
  "\<not> is_separator CHR ''z''" "\<not> is_separator CHR ''a''" "\<not> is_separator CHR ''b''"
  "is_separator CHR ''.''"
  "lower_char CHR ''z'' = CHR ''z''" "lower_char CHR ''a'' = CHR ''a''"
  "lower_char CHR ''b'' = CHR ''b''" "lower_char CHR ''.'' = CHR ''.''"
  by code_simp+

lemma ex_long_text:
  "trim (textContent_at ex_long [0, 0]) = replicate 249 CHR ''z'' @ ''ab'' @ replicate 249 CHR ''z''"
proof -
  have "textContent_at ex_long [0, 0] = replicate 249 CHR ''z'' @ ''ab'' @ replicate 249 CHR ''z''"
    by (simp add: ex_long_def page_def textContent_at_def)
  moreover have "trim (replicate 249 CHR ''z'' @ ''ab'' @ replicate 249 CHR ''z'') =
      replicate 249 CHR ''z'' @ ''ab'' @ replicate 249 CHR ''z''"
    by (rule trim_keeps) (simp_all add: example_chars hd_append)
  ultimately show ?thesis by simp
qed

lemma ex_dots_text:
  "trim (textContent_at ex_dots [0, 0]) = ''ab'' @ replicate 498 CHR ''.''"
proof -
  have "textContent_at ex_dots [0, 0] = ''ab'' @ replicate 498 CHR ''.''"
    by (simp add: ex_dots_def page_def textContent_at_def)
  moreover have "trim (''ab'' @ replicate 498 CHR ''.'') = ''ab'' @ replicate 498 CHR ''.''"
    by (rule trim_keeps) (simp_all add: example_chars)
  ultimately show ?thesis by simp
qed

lemma ex_long_facts:
  "length (trim (textContent_at ex_long [0, 0])) = 500"
  "includes_str (trim (textContent_at ex_long [0, 0])) ''ab''"
  "length (filter (\<lambda>c. \<not> is_separator c) (toLowerCase (trim (textContent_at ex_long [0, 0]))))
     = 500"
proof -
  show "length (trim (textContent_at ex_long [0, 0])) = 500"
    by (simp add: ex_long_text)
  show "includes_str (trim (textContent_at ex_long [0, 0])) ''ab''"
    unfolding ex_long_text includes_str_sublist by (rule sublist_appendI)
  show "length (filter (\<lambda>c. \<not> is_separator c)
          (toLowerCase (trim (textContent_at ex_long [0, 0])))) = 500"
    by (simp add: ex_long_text toLowerCase_def example_chars)
qed

lemma ex_dots_facts:
  "length (trim (textContent_at ex_dots [0, 0])) = 500"
  "includes_str (trim (textContent_at ex_dots [0, 0])) ''ab''"
  "length (filter (\<lambda>c. \<not> is_separator c) (toLowerCase (trim (textContent_at ex_dots [0, 0]))))
     = 2"
  "RegExp_test demo ''ab'' (trim (textContent_at ex_dots [0, 0]))"
  "\<not> hasProcessed ex_dots [0, 0]"
  "children_length ex_dots [0, 0] = 0"
proof -
  show "length (trim (textContent_at ex_dots [0, 0])) = 500"
    by (simp add: ex_dots_text)
  show "includes_str (trim (textContent_at ex_dots [0, 0])) ''ab''"
    by (simp add: ex_dots_text)
  show "length (filter (\<lambda>c. \<not> is_separator c)
          (toLowerCase (trim (textContent_at ex_dots [0, 0])))) = 2"
    by (simp add: ex_dots_text toLowerCase_def example_chars)
  show "RegExp_test demo ''ab'' (trim (textContent_at ex_dots [0, 0]))"
    by (simp add: ex_dots_text demo_def demo_test_def toLowerCase_def example_chars)
  show "\<not> hasProcessed ex_dots [0, 0]" "children_length ex_dots [0, 0] = 0"
    by (simp_all add: ex_dots_def page_def plain_def children_length_def)
qed

lemma ex_dots_qualifies: "qualifies demo ''ab'' ex_dots [0, 0]"
proof -
  have "trim (textContent_at ex_dots [0, 0]) \<noteq> []"
    using ex_dots_facts(1) by auto
  then show ?thesis
    using ex_dots_facts by (simp add: qualifies_iff)
qed




section \<open>The selector generator\<close>

lemma nth_of_type_shape [simp]: "nth_of_type (shape d) parent current = nth_of_type d parent current"
proof (cases "node_at d parent")
  case None
  then show ?thesis by (simp add: nth_of_type_def node_at_shape)
next
  case (Some pn)
  have "filter (\<lambda>i. linked (map shape (slots pn) ! i) \<and> is_element (map shape (slots pn) ! i) \<and>
                    map_option tagName (elem_at (shape d) (parent @ [i]))
                      = map_option tagName (elem_at (shape d) current))
          [0 ..< length (slots pn)] =
        filter (\<lambda>i. linked (slots pn ! i) \<and> is_element (slots pn ! i) \<and>
                    map_option tagName (elem_at d (parent @ [i]))
                      = map_option tagName (elem_at d current))
          [0 ..< length (slots pn)]"
    by (rule filter_cong) (auto simp: elem_at_shape option.map_comp comp_def)
  then show ?thesis using Some by (simp add: nth_of_type_def node_at_shape Let_def)
qed

lemma gs_walk_shape: "gs_walk pf (shape d) current acc = gs_walk pf d current acc"
proof (induction pf d current acc rule: gs_walk.induct)
  case (1 pf d current acc)
  show ?case
  proof (cases "document_body d = Some current \<or> documentElement d = Some current")
    case True
    then show ?thesis by (simp add: gs_walk.simps [of pf "shape d"] gs_walk.simps [of pf d])
  next
    case False
    show ?thesis
    proof (cases "elem_at d current")
      case None
      then show ?thesis
        using False
        by (simp add: gs_walk.simps [of pf "shape d" current] gs_walk.simps [of pf d current]
            elem_at_shape)
    next
      case (Some e)
      note e = Some
      show ?thesis
      proof (cases "parentElement d current")
        case None
        then show ?thesis
          using False e
          by (simp add: gs_walk.simps [of pf "shape d" current] gs_walk.simps [of pf d current]
              elem_at_shape)
      next
        case (Some parent)
        have ih: "gs_walk pf (shape d) parent
                    ((toLowerCase (tagName e) @ class_selectors pf (className e) @
                      nth_of_type d parent current) # acc) =
                  gs_walk pf d parent
                    ((toLowerCase (tagName e) @ class_selectors pf (className e) @
                      nth_of_type d parent current) # acc)"
          using "1.IH" [OF False e refl Some] by simp
        show ?thesis
          using False e Some ih
          by (simp add: gs_walk.simps [of pf "shape d" current] gs_walk.simps [of pf d current]
              elem_at_shape)
      qed
    qed
  qed
qed

lemma generateSelector_shape: "generateSelector pf (shape d) el = generateSelector pf d el"
  by (cases "elem_at d el") (simp_all add: generateSelector_def elem_at_shape gs_walk_shape)

text \<open>
  C7. Two calls of generateSelector on the same node, one after the other, return the
  same string: the first call leaves the page as it found it. The string does not
  depend on the replacer's marks and hiding either, so it is the same before and after
  the replacer has marked or hidden elements.
\<close>

theorem generateSelector_deterministic:
  "fst (generateSelector_call pf el (snd (generateSelector_call pf el s))) =
     fst (generateSelector_call pf el s) \<and>
   snd (generateSelector_call pf el s) = s \<and>
   (shape d' = shape d \<longrightarrow> generateSelector pf d' el = generateSelector pf d el)"
proof (intro conjI impI)
  show "fst (generateSelector_call pf el (snd (generateSelector_call pf el s))) =
     fst (generateSelector_call pf el s)"
    by (simp add: generateSelector_call_def)
  show "snd (generateSelector_call pf el s) = s"
    by (simp add: generateSelector_call_def)
next
  assume "shape d' = shape d"
  then show "generateSelector pf d' el = generateSelector pf d el"
    using generateSelector_shape [of pf d' el] generateSelector_shape [of pf d el] by simp
qed

theorem generateSelector_deterministic_witness:
  "generateSelector demo ex_list [0, 0, 2, 1] = ''ul > li.new:nth-of-type(2) > b'' \<and>
   shape (update_at [0, 0, 2] mark_node ex_list) = shape ex_list \<and>
   generateSelector demo (update_at [0, 0, 2] mark_node ex_list) [0, 0, 2, 1] =
     ''ul > li.new:nth-of-type(2) > b'' \<and>
   fst (generateSelector_call demo [0, 0, 2, 0] (start [] ex_list)) = ''#top''"
proof -
  have a: "generateSelector demo ex_list [0, 0, 2, 1] = ''ul > li.new:nth-of-type(2) > b''"
    by code_simp
  have b: "shape (update_at [0, 0, 2] mark_node ex_list) = shape ex_list"
    by (simp add: shape_update_at)
  have c: "generateSelector demo (update_at [0, 0, 2] mark_node ex_list) [0, 0, 2, 1] =
      generateSelector demo ex_list [0, 0, 2, 1]"
    using b generateSelector_deterministic
      [of demo "[0, 0, 2, 1]" "start [] ex_list" "update_at [0, 0, 2] mark_node ex_list" ex_list]
    by blast
  have d: "fst (generateSelector_call demo [0, 0, 2, 0] (start [] ex_list)) = ''#top''"
    by code_simp
  show ?thesis using a b c d by simp
qed


end
